theory Spec2Isabelle
  imports Complex_Main "HOL-Library.Multiset"
begin

text \<open>
  A model of the chat of this web client, \<open>src/components/Chat.tsx\<close>: the WebSocket
  connection and its reconnect timer, the store of received messages with its duplicate
  test and its sort, the projection of a conversation, its grouping by day, the send
  form, and the list of users. With it, the profile lookups \<open>fetchReviewer\<close> of the
  component \<open>Profile\<close> and \<open>fetchUserDetails\<close> of the component \<open>Offers\<close>. Every
  definition of the first part follows a function, a handler or a state cell of the
  source; what the browser and the server do is an event of a transition system.
\<close>

section \<open>JavaScript values\<close>

text \<open>
  A JavaScript string is a sequence of UTF-16 code units. \<open>str\<close> writes an ASCII literal.
\<close>

type_synonym js_string = "nat list"

definition str :: "string \<Rightarrow> js_string" where
  "str s = map of_char s"

text \<open>
  \<open>String.prototype.trim\<close> removes the code units of ECMAScript's WhiteSpace and
  LineTerminator productions from both ends: TAB, LF, VT, FF, CR, SP, NBSP, U+1680,
  U+2000 to U+200A, LS, PS, U+202F, U+205F, U+3000 and U+FEFF.
\<close>

definition is_white_space :: "nat \<Rightarrow> bool" where
  "is_white_space c \<longleftrightarrow>
     c \<in> {9, 10, 11, 12, 13, 32, 160, 5760, 8232, 8233, 8239, 8287, 12288, 65279}
     \<or> (8192 \<le> c \<and> c \<le> 8202)"

definition trim :: "js_string \<Rightarrow> js_string" where
  "trim s = rev (dropWhile is_white_space (rev (dropWhile is_white_space s)))"

text \<open>
  What \<open>JSON.parse\<close> and \<open>response.json()\<close> return is untyped: the TypeScript
  interfaces \<open>Message\<close> and \<open>User\<close> are not checked at run time. A number is its
  (finite) value; an object is its table of own properties. \<open>undefined\<close> is not a JSON
  value: a property read yields a \<open>json option\<close>, \<open>None\<close> for \<open>undefined\<close>.
\<close>

datatype json =
    JNull
  | JBool bool
  | JNum rat
  | JStr js_string
  | JArr "json list"
  | JObj "(js_string \<times> json) list"

datatype error = SyntaxError | TypeError | InvalidStateError

text \<open>
  \<open>v.k\<close> for the property names this program reads (\<open>message_id\<close>, \<open>sender_id\<close>,
  \<open>receiver_id\<close>, \<open>sent_at\<close>, \<open>user_id\<close>): a TypeError on \<open>null\<close>, the own property
  of an object, and \<open>undefined\<close> on every other value (no primitive wrapper or array
  has a property of these names).
\<close>

fun get :: "json \<Rightarrow> js_string \<Rightarrow> error + json option" where
  "get JNull k = Inl TypeError"
| "get (JObj kvs) k = Inr (map_of kvs k)"
| "get v k = Inr None"

text \<open>
  \<open>a === b\<close>. Primitives compare by value. Objects and arrays compare by reference, and
  the two operands of every comparison in this program come from different parses (or one
  of them is a number), so they are never the same reference.
\<close>

fun strict_eq :: "json option \<Rightarrow> json option \<Rightarrow> bool" where
  "strict_eq None None = True"
| "strict_eq (Some JNull) (Some JNull) = True"
| "strict_eq (Some (JBool a)) (Some (JBool b)) = (a = b)"
| "strict_eq (Some (JNum a)) (Some (JNum b)) = (a = b)"
| "strict_eq (Some (JStr a)) (Some (JStr b)) = (a = b)"
| "strict_eq a b = False"

text \<open>ToBoolean: what \<open>!v\<close> and \<open>if (v)\<close> test. \<open>None\<close> is \<open>undefined\<close> or a \<open>null\<close> state.\<close>

fun truthy :: "json option \<Rightarrow> bool" where
  "truthy None = False"
| "truthy (Some JNull) = False"
| "truthy (Some (JBool b)) = b"
| "truthy (Some (JNum n)) = (n \<noteq> 0)"
| "truthy (Some (JStr s)) = (s \<noteq> [])"
| "truthy (Some v) = True"

section \<open>Props and library functions\<close>

text \<open>
  The props of \<open>Chat\<close> and the library functions the component calls, taken as
  parameters:
  \<^item> \<open>currentUserId\<close>: the prop;
  \<^item> \<open>url_ok\<close>: whether \<open>new WebSocket\<close> accepts the URL built from the prop \<open>token\<close>
    (it throws a SyntaxError otherwise);
  \<^item> \<open>JSON_parse\<close>: \<open>JSON.parse\<close>, \<open>None\<close> when it throws a SyntaxError;
  \<^item> \<open>getTime\<close>: \<open>new Date(v).getTime()\<close>, \<open>None\<close> for NaN (an invalid date);
  \<^item> \<open>local_day\<close>: the number of the local calendar day a time value falls on (what
    \<open>toDateString\<close> prints), consecutive days having consecutive numbers;
  \<^item> \<open>toLocaleDateString\<close>: \<open>toLocaleDateString("pl-PL", {day: "numeric", month: "short"})\<close>;
  \<^item> \<open>now\<close>: the time value of \<open>new Date()\<close> during a render.
\<close>

record env =
  currentUserId :: rat
  url_ok :: bool
  JSON_parse :: "js_string \<Rightarrow> json option"
  getTime :: "json option \<Rightarrow> int option"
  local_day :: "int \<Rightarrow> int"
  toLocaleDateString :: "int \<Rightarrow> js_string"
  now :: int

section \<open>The message store: \<open>ws.onmessage\<close> and \<open>getMessagesWithUser\<close>\<close>

text \<open>
  The comparator of the sort,
  \<open>(a, b) => new Date(a.sent_at).getTime() - new Date(b.sent_at).getTime()\<close>:
  a TypeError when an operand is \<open>null\<close>, NaN (\<open>None\<close>) when a date is invalid.
\<close>

definition compare_sent_at :: "env \<Rightarrow> json \<Rightarrow> json \<Rightarrow> error + int option" where
  "compare_sent_at E a b =
     (case get a (str ''sent_at'') of
        Inl e \<Rightarrow> Inl e
      | Inr sa \<Rightarrow>
          (case get b (str ''sent_at'') of
             Inl e \<Rightarrow> Inl e
           | Inr sb \<Rightarrow>
               Inr (case (getTime E sa, getTime E sb) of
                      (Some ta, Some tb) \<Rightarrow> Some (ta - tb)
                    | _ \<Rightarrow> None)))"

text \<open>
  \<open>Array.prototype.sort(comparefn)\<close>. ECMAScript fixes its result (the stable sort) only
  for a consistent comparator; otherwise the order is the implementation's. The model is
  the algorithm of V8, the engine of Chrome and Node, as it runs on an array of fewer than
  64 elements, so that it computes what the browser computes also where a NaN from the
  comparator (an invalid date) makes the comparator inconsistent:
  \<^item> the engine's \<open>Compare\<close> turns a NaN of \<open>comparefn\<close> into 0, so \<open>order < 0\<close> is
    \<open>negative\<close>;
  \<^item> \<open>CountAndMakeRun\<close> takes the longest run from the left, ascending
    (\<open>a[0] <= a[1] <= ...\<close>, each element compared with the one before it) or strictly
    descending, and reverses a descending one;
  \<^item> \<open>BinaryInsertionSort\<close> inserts every further element into the run, at the slot a
    binary search with \<open>Compare(pivot, a[mid])\<close> finds;
  \<^item> an exception of \<open>comparefn\<close> ends the sort; an array of fewer than two elements is
    returned without a comparison.
  From 64 elements on V8 cuts the array into runs of 32 to 64 elements, sorts each in this
  way and merges them; for a consistent comparator that is the same list, the stable sort.
\<close>

definition negative :: "int option \<Rightarrow> bool" where
  "negative order = (case order of Some d \<Rightarrow> d < 0 | None \<Rightarrow> False)"

text \<open>
  The loop of \<open>CountAndMakeRun\<close>: how many of the elements after \<open>previous\<close> continue
  the run.
\<close>

fun extend_run ::
  "('a \<Rightarrow> 'a \<Rightarrow> error + int option) \<Rightarrow> bool \<Rightarrow> 'a \<Rightarrow> 'a list \<Rightarrow> error + nat" where
  "extend_run cmp isDescending previous [] = Inr 0"
| "extend_run cmp isDescending previous (current # rest) =
     (case cmp current previous of
        Inl e \<Rightarrow> Inl e
      | Inr order \<Rightarrow>
          if negative order = isDescending
          then (case extend_run cmp isDescending current rest of
                  Inl e \<Rightarrow> Inl e
                | Inr n \<Rightarrow> Inr (Suc n))
          else Inr 0)"

text \<open>\<open>CountAndMakeRun\<close>: the run, made ascending, and the elements after it.\<close>

fun count_and_make_run ::
  "('a \<Rightarrow> 'a \<Rightarrow> error + int option) \<Rightarrow> 'a list \<Rightarrow> error + 'a list \<times> 'a list" where
  "count_and_make_run cmp (elementHigh # elementLow # rest) =
     (case cmp elementLow elementHigh of
        Inl e \<Rightarrow> Inl e
      | Inr order \<Rightarrow>
          (case extend_run cmp (negative order) elementLow rest of
             Inl e \<Rightarrow> Inl e
           | Inr n \<Rightarrow>
               Inr (if negative order
                    then rev (elementHigh # elementLow # take n rest)
                    else elementHigh # elementLow # take n rest,
                    drop n rest)))"
| "count_and_make_run cmp xs = Inr (xs, [])"

text \<open>
  The binary search of \<open>BinaryInsertionSort\<close> for the slot of \<open>pivot\<close> in the sorted part
  \<open>xs\<close>, between \<open>left\<close> and \<open>right\<close>.
\<close>

function find_slot ::
  "('a \<Rightarrow> 'a \<Rightarrow> error + int option) \<Rightarrow> 'a \<Rightarrow> 'a list \<Rightarrow> nat \<Rightarrow> nat \<Rightarrow> error + nat" where
  "find_slot cmp pivot xs left right =
     (if left < right
      then (case cmp pivot (xs ! (left + (right - left) div 2)) of
              Inl e \<Rightarrow> Inl e
            | Inr order \<Rightarrow>
                if negative order
                then find_slot cmp pivot xs left (left + (right - left) div 2)
                else find_slot cmp pivot xs (Suc (left + (right - left) div 2)) right)
      else Inr left)"
  by pat_completeness auto
termination
  by (relation "measure (\<lambda>(cmp, pivot, xs, left, right). right - left)") auto

fun binary_insertion_sort ::
  "('a \<Rightarrow> 'a \<Rightarrow> error + int option) \<Rightarrow> 'a list \<Rightarrow> 'a list \<Rightarrow> error + 'a list" where
  "binary_insertion_sort cmp sorted_part [] = Inr sorted_part"
| "binary_insertion_sort cmp sorted_part (pivot # rest) =
     (case find_slot cmp pivot sorted_part 0 (length sorted_part) of
        Inl e \<Rightarrow> Inl e
      | Inr left \<Rightarrow>
          binary_insertion_sort cmp
            (take left sorted_part @ pivot # drop left sorted_part) rest)"

definition array_sort ::
  "('a \<Rightarrow> 'a \<Rightarrow> error + int option) \<Rightarrow> 'a list \<Rightarrow> error + 'a list" where
  "array_sort cmp xs =
     (case count_and_make_run cmp xs of
        Inl e \<Rightarrow> Inl e
      | Inr (run, rest) \<Rightarrow> binary_insertion_sort cmp run rest)"

text \<open>\<open>prev.some((m) => m.message_id === message.message_id)\<close>, left to right.\<close>

fun some_same_id :: "json \<Rightarrow> json list \<Rightarrow> error + bool" where
  "some_same_id message [] = Inr False"
| "some_same_id message (m # ms) =
     (case get m (str ''message_id'') of
        Inl e \<Rightarrow> Inl e
      | Inr a \<Rightarrow>
          (case get message (str ''message_id'') of
             Inl e \<Rightarrow> Inl e
           | Inr b \<Rightarrow> if strict_eq a b then Inr True else some_same_id message ms))"

text \<open>
  The updater that \<open>ws.onmessage\<close> passes to \<open>setMessages\<close>: \<open>prev\<close> when the id is
  already there, else \<open>[...prev, message].sort(...)\<close>.
\<close>

definition ingest :: "env \<Rightarrow> json \<Rightarrow> json list \<Rightarrow> error + json list" where
  "ingest E message prev =
     (case some_same_id message prev of
        Inl e \<Rightarrow> Inl e
      | Inr True \<Rightarrow> Inr prev
      | Inr False \<Rightarrow> array_sort (compare_sent_at E) (prev @ [message]))"

text \<open>
  \<open>ws.onmessage\<close>, as the next value of the state \<open>messages\<close>. A SyntaxError of
  \<open>JSON.parse\<close> is caught (and logged): the state stays. The handler itself always
  returns; \<open>Inl\<close> is an exception of the updater, which React raises when it applies the
  update, outside the handler's \<open>try\<close>.
\<close>

definition onmessage :: "env \<Rightarrow> js_string \<Rightarrow> json list \<Rightarrow> error + json list" where
  "onmessage E data prev =
     (case JSON_parse E data of
        None \<Rightarrow> Inr prev
      | Some message \<Rightarrow> ingest E message prev)"

text \<open>Ingesting a sequence of parsed frames in arrival order, from a given store.\<close>

fun ingest_all :: "env \<Rightarrow> json list \<Rightarrow> json list \<Rightarrow> error + json list" where
  "ingest_all E [] store = Inr store"
| "ingest_all E (m # ms) store =
     (case ingest E m store of
        Inl e \<Rightarrow> Inl e
      | Inr store' \<Rightarrow> ingest_all E ms store')"

text \<open>
  \<open>getMessagesWithUser(userId)\<close>: the filter callback reads \<open>msg.sender_id\<close> first, so it
  throws a TypeError exactly on a \<open>null\<close> entry.
\<close>

definition with_user :: "env \<Rightarrow> json option \<Rightarrow> json \<Rightarrow> error + bool" where
  "with_user E userId msg =
     (case get msg (str ''sender_id'') of
        Inl e \<Rightarrow> Inl e
      | Inr sender \<Rightarrow>
          (case get msg (str ''receiver_id'') of
             Inl e \<Rightarrow> Inl e
           | Inr receiver \<Rightarrow>
               Inr ((strict_eq sender (Some (JNum (currentUserId E))) \<and> strict_eq receiver userId)
                  \<or> (strict_eq sender userId \<and> strict_eq receiver (Some (JNum (currentUserId E)))))))"

fun getMessagesWithUser :: "env \<Rightarrow> json option \<Rightarrow> json list \<Rightarrow> error + json list" where
  "getMessagesWithUser E userId [] = Inr []"
| "getMessagesWithUser E userId (msg # msgs) =
     (case with_user E userId msg of
        Inl e \<Rightarrow> Inl e
      | Inr keep \<Rightarrow>
          (case getMessagesWithUser E userId msgs of
             Inl e \<Rightarrow> Inl e
           | Inr rest \<Rightarrow> Inr (if keep then msg # rest else rest)))"

section \<open>Day grouping: \<open>formatDate\<close> and the render of the messages\<close>





section \<open>The component \<open>Chat\<close>: state, WebSocket handlers, send\<close>

datatype ready_state = CONNECTING | OPEN | CLOSING | CLOSED

text \<open>The object that \<open>sendMessage\<close> passes to \<open>JSON.stringify\<close>.\<close>

record frame =
  sender_id :: rat
  receiver_id :: "json option"
  content :: js_string

text \<open>
  The state cells of the component (\<open>messages\<close>, \<open>users\<close>, \<open>selectedUser\<close>, \<open>newMessage\<close>,
  \<open>isConnected\<close>, \<open>wsRef\<close>), and what the browser holds for it:
  \<^item> \<open>sockets\<close>: the \<open>readyState\<close> of every WebSocket the component has created, in
    creation order; \<open>wsRef\<close> is an index into it, \<open>None\<close> for \<open>null\<close>;
  \<^item> \<open>timers\<close>: the pending \<open>setTimeout(() => connectWebSocket(), 3000)\<close> callbacks;
  \<^item> \<open>wire\<close>: the frames transmitted so far, each with the socket it went out on;
  \<^item> \<open>users_pending\<close>: the requests of \<open>fetchUsers\<close> that have not settled.
\<close>

record chat =
  messages :: "json list"
  users :: "json list"
  selectedUser :: "json option"
  newMessage :: js_string
  isConnected :: bool
  wsRef :: "nat option"
  sockets :: "ready_state list"
  timers :: nat
  wire :: "(nat \<times> frame) list"
  users_pending :: nat

definition init :: chat where
  "init = \<lparr>messages = [], users = [], selectedUser = None, newMessage = [],
           isConnected = False, wsRef = None, sockets = [], timers = 0, wire = [],
           users_pending = 0\<rparr>"

text \<open>
  \<open>connectWebSocket\<close>: a new socket, its four handlers, \<open>wsRef.current = ws\<close>. The
  constructor's exception is caught (and logged). Nothing tests whether a socket is
  already there.
\<close>

definition connectWebSocket :: "env \<Rightarrow> chat \<Rightarrow> chat" where
  "connectWebSocket E s =
     (if url_ok E
      then s\<lparr>sockets := sockets s @ [CONNECTING], wsRef := Some (length (sockets s))\<rparr>
      else s)"

definition onopen :: "chat \<Rightarrow> chat" where
  "onopen s = s\<lparr>isConnected := True\<rparr>"

text \<open>\<open>ws.onclose\<close>: \<open>setIsConnected(false)\<close> and the reconnect timer, whatever closed the socket.\<close>

definition onclose :: "chat \<Rightarrow> chat" where
  "onclose s = s\<lparr>isConnected := False, timers := Suc (timers s)\<rparr>"

definition onerror :: "chat \<Rightarrow> chat" where
  "onerror s = s\<lparr>isConnected := False\<rparr>"

text \<open>
  \<open>WebSocket.close()\<close>: a connecting or open socket starts closing; the browser fires its
  \<open>close\<close> event later. The cleanup of the effect: \<open>if (wsRef.current) wsRef.current.close()\<close>.
\<close>

definition ws_close :: "nat \<Rightarrow> chat \<Rightarrow> chat" where
  "ws_close i s =
     (if i < length (sockets s) \<and> (sockets s ! i = CONNECTING \<or> sockets s ! i = OPEN)
      then s\<lparr>sockets := (sockets s)[i := CLOSING]\<rparr>
      else s)"

definition cleanup :: "chat \<Rightarrow> chat" where
  "cleanup s = (case wsRef s of None \<Rightarrow> s | Some i \<Rightarrow> ws_close i s)"

text \<open>
  \<open>WebSocket.send(data)\<close>: an InvalidStateError while the socket is connecting, the frame
  on the wire while it is open, and nothing (the data is discarded, no exception) once it
  is closing or closed.
\<close>

definition ws_send :: "nat \<Rightarrow> frame \<Rightarrow> chat \<Rightarrow> error + chat" where
  "ws_send i data s =
     (if i < length (sockets s)
      then (case sockets s ! i of
              CONNECTING \<Rightarrow> Inl InvalidStateError
            | OPEN \<Rightarrow> Inr (s\<lparr>wire := wire s @ [(i, data)]\<rparr>)
            | CLOSING \<Rightarrow> Inr s
            | CLOSED \<Rightarrow> Inr s)
      else Inr s)"

text \<open>
  \<open>sendMessage\<close>. The guard and the construction of \<open>messageData\<close> stand outside the
  \<open>try\<close>; \<open>send\<close> and \<open>setNewMessage("")\<close> stand inside, and the \<open>catch\<close> only logs.
\<close>

definition sendMessage :: "env \<Rightarrow> chat \<Rightarrow> error + chat" where
  "sendMessage E s =
     (if trim (newMessage s) = [] \<or> \<not> truthy (selectedUser s) \<or> wsRef s = None then Inr s
      else (case (selectedUser s, wsRef s) of
              (Some u, Some i) \<Rightarrow>
                (case get u (str ''user_id'') of
                   Inl e \<Rightarrow> Inl e
                 | Inr uid \<Rightarrow>
                     (case ws_send i \<lparr>sender_id = currentUserId E, receiver_id = uid,
                                      content = trim (newMessage s)\<rparr> s of
                        Inl e \<Rightarrow> Inr s
                      | Inr s' \<Rightarrow> Inr (s'\<lparr>newMessage := []\<rparr>)))
            | _ \<Rightarrow> Inr s))"


section \<open>\<open>fetchUsers\<close>\<close>

text \<open>
  How a \<open>fetch\<close> settles: the promise rejects, or a response arrives with its \<open>ok\<close> flag
  and its body as \<open>response.json()\<close> reads it (\<open>None\<close> when that rejects).
\<close>

datatype response = Rejected | Response bool "json option"

text \<open>\<open>data.filter((user) => user.user_id !== currentUserId)\<close> on the elements of an array.\<close>

fun filter_users :: "env \<Rightarrow> json list \<Rightarrow> error + json list" where
  "filter_users E [] = Inr []"
| "filter_users E (user # rest) =
     (case get user (str ''user_id'') of
        Inl e \<Rightarrow> Inl e
      | Inr uid \<Rightarrow>
          (case filter_users E rest of
             Inl e \<Rightarrow> Inl e
           | Inr kept \<Rightarrow>
               Inr (if \<not> strict_eq uid (Some (JNum (currentUserId E))) then user # kept
                    else kept)))"

text \<open>
  \<open>fetchUsers\<close>, as the next value of the state \<open>users\<close> once the request has settled.
  Every exception is caught (and logged): a rejected request, a body that is not JSON, a
  \<open>data\<close> without a \<open>filter\<close> method (anything but an array), a \<open>null\<close> element.
\<close>

definition fetchUsers :: "env \<Rightarrow> response \<Rightarrow> json list \<Rightarrow> json list" where
  "fetchUsers E r prev =
     (case r of
        Rejected \<Rightarrow> prev
      | Response ok body \<Rightarrow>
          if \<not> ok then prev
          else (case body of
                  Some (JArr data) \<Rightarrow>
                    (case filter_users E data of Inl e \<Rightarrow> prev | Inr kept \<Rightarrow> kept)
                | _ \<Rightarrow> prev))"

section \<open>The component as a transition system\<close>

text \<open>
  What can happen to a mounted \<open>Chat\<close>:
  \<^item> \<open>Effect\<close>: React runs the effect (\<open>connectWebSocket(); fetchUsers()\<close>);
  \<^item> \<open>Cleanup\<close>: React runs its cleanup (on unmount, or before it runs the effect again
    for a new \<open>token\<close>);
  \<^item> \<open>WsOpen i\<close>, \<open>WsMessage i data\<close>, \<open>WsError i\<close>, \<open>WsClose i\<close>: the browser fires an
    event of socket \<open>i\<close>, whose handlers are the closures \<open>connectWebSocket\<close> gave it;
    \<open>open\<close> only on a connecting socket, \<open>message\<close> only on an open one, \<open>close\<close> once,
    after which the socket is closed and fires nothing;
  \<^item> \<open>Timeout\<close>: a pending reconnect timer fires;
  \<^item> \<open>UsersResponse r\<close>: a request of \<open>fetchUsers\<close> settles;
  \<^item> \<open>Input t\<close>, \<open>Select u\<close>, \<open>Submit\<close>: the user types into the input (disabled while
    \<open>!isConnected\<close>), clicks a row of the user list, submits the form (rendered once a
    user is selected; the button is disabled while \<open>!newMessage.trim() || !isConnected\<close>).
  An event that cannot happen in a state leaves it as it is. \<open>Inl\<close> is an exception that
  no handler catches: the render fails.
\<close>

datatype event =
    Effect
  | Cleanup
  | WsOpen nat
  | WsMessage nat js_string
  | WsError nat
  | WsClose nat
  | Timeout
  | UsersResponse response
  | Input js_string
  | Select json
  | Submit

fun step :: "env \<Rightarrow> event \<Rightarrow> chat \<Rightarrow> error + chat" where
  "step E Effect s = Inr ((connectWebSocket E s)\<lparr>users_pending := Suc (users_pending s)\<rparr>)"
| "step E Cleanup s = Inr (cleanup s)"
| "step E (WsOpen i) s =
     (if i < length (sockets s) \<and> sockets s ! i = CONNECTING
      then Inr (onopen (s\<lparr>sockets := (sockets s)[i := OPEN]\<rparr>))
      else Inr s)"
| "step E (WsMessage i data) s =
     (if i < length (sockets s) \<and> sockets s ! i = OPEN
      then (case onmessage E data (messages s) of
              Inl e \<Rightarrow> Inl e
            | Inr ms \<Rightarrow> Inr (s\<lparr>messages := ms\<rparr>))
      else Inr s)"
| "step E (WsError i) s =
     (if i < length (sockets s) \<and> sockets s ! i \<noteq> CLOSED then Inr (onerror s) else Inr s)"
| "step E (WsClose i) s =
     (if i < length (sockets s) \<and> sockets s ! i \<noteq> CLOSED
      then Inr (onclose (s\<lparr>sockets := (sockets s)[i := CLOSED]\<rparr>))
      else Inr s)"
| "step E Timeout s =
     (if 0 < timers s then Inr (connectWebSocket E (s\<lparr>timers := timers s - 1\<rparr>)) else Inr s)"
| "step E (UsersResponse r) s =
     (if 0 < users_pending s
      then Inr (s\<lparr>users_pending := users_pending s - 1, users := fetchUsers E r (users s)\<rparr>)
      else Inr s)"
| "step E (Input t) s = (if isConnected s then Inr (s\<lparr>newMessage := t\<rparr>) else Inr s)"
| "step E (Select u) s = (if u \<in> set (users s) then Inr (s\<lparr>selectedUser := Some u\<rparr>) else Inr s)"
| "step E Submit s =
     (if truthy (selectedUser s) \<and> trim (newMessage s) \<noteq> [] \<and> isConnected s
      then sendMessage E s
      else Inr s)"

fun run :: "env \<Rightarrow> event list \<Rightarrow> chat \<Rightarrow> error + chat" where
  "run E [] s = Inr s"
| "run E (ev # evs) s =
     (case step E ev s of
        Inl e \<Rightarrow> Inl e
      | Inr s' \<Rightarrow> run E evs s')"

text \<open>The sockets that are not closed, and those that are connecting or open.\<close>

definition non_closed :: "chat \<Rightarrow> nat" where
  "non_closed s = length (filter (\<lambda>r. r \<noteq> CLOSED) (sockets s))"

definition live :: "chat \<Rightarrow> nat" where
  "live s = length (filter (\<lambda>r. r = CONNECTING \<or> r = OPEN) (sockets s))"

section \<open>The profile lookups of \<open>Profile\<close> and \<open>Offers\<close>\<close>

text \<open>
  \<open>Profile\<close> keeps \<open>reviewers\<close> and \<open>Offers\<close> keeps \<open>users\<close>: an object from user id to
  the profile fetched for it. \<open>cache\<close> is that state cell; \<open>outstanding\<close> lists the
  requests for \<open>/user/<id>\<close> that have been issued and have not settled.
\<close>

record directory =
  cache :: "rat \<Rightarrow> json option"
  outstanding :: "rat list"

text \<open>
  \<open>fetchReviewer(reviewerId)\<close> up to its \<open>await fetch\<close>. \<open>reviewers\<close> is the value of the
  state cell that the closure holds: the one of the render that created it.
\<close>

definition fetchReviewer :: "(rat \<Rightarrow> json option) \<Rightarrow> rat \<Rightarrow> directory \<Rightarrow> directory" where
  "fetchReviewer reviewers reviewerId d =
     (if truthy (reviewers reviewerId) then d
      else d\<lparr>outstanding := outstanding d @ [reviewerId]\<rparr>)"

text \<open>
  The rest of \<open>fetchReviewer\<close>, when its request settles:
  \<open>setReviewers((prev) => ({ ...prev, [reviewerId]: reviewer }))\<close> on an \<open>ok\<close> response with
  a JSON body, nothing otherwise (the exceptions are caught and logged).
\<close>

definition fetchReviewer_settled :: "rat \<Rightarrow> response \<Rightarrow> directory \<Rightarrow> directory" where
  "fetchReviewer_settled reviewerId r d =
     (let d' = d\<lparr>outstanding := remove1 reviewerId (outstanding d)\<rparr>
      in case r of
           Response True (Some reviewer) \<Rightarrow> d'\<lparr>cache := (cache d)(reviewerId \<mapsto> reviewer)\<rparr>
         | _ \<Rightarrow> d')"

text \<open>\<open>fetchUserDetails(userId)\<close> of \<open>Offers\<close>: the same code over the state cell \<open>users\<close>.\<close>

definition fetchUserDetails :: "(rat \<Rightarrow> json option) \<Rightarrow> rat \<Rightarrow> directory \<Rightarrow> directory" where
  "fetchUserDetails users' userId d =
     (if truthy (users' userId) then d
      else d\<lparr>outstanding := outstanding d @ [userId]\<rparr>)"

definition fetchUserDetails_settled :: "rat \<Rightarrow> response \<Rightarrow> directory \<Rightarrow> directory" where
  "fetchUserDetails_settled userId r d =
     (let d' = d\<lparr>outstanding := remove1 userId (outstanding d)\<rparr>
      in case r of
           Response True (Some user) \<Rightarrow> d'\<lparr>cache := (cache d)(userId \<mapsto> user)\<rparr>
         | _ \<Rightarrow> d')"

section \<open>Observations the statements use\<close>

text \<open>
  What the duplicate test and the comparator read off an entry: its \<open>message_id\<close>
  (\<open>None\<close> for \<open>undefined\<close>), whether two entries have \<open>===\<close> ids, the time value of
  its \<open>sent_at\<close> (\<open>None\<close> for an invalid date or a \<open>null\<close> entry), and that time as
  a sort key. \<open>has_numeric_id\<close>: the entry is an object whose \<open>message_id\<close> is a number, as
  the interface \<open>Message\<close> declares.
\<close>

definition message_id_of :: "json \<Rightarrow> json option" where
  "message_id_of m = (case get m (str ''message_id'') of Inl e \<Rightarrow> None | Inr v \<Rightarrow> v)"

definition same_id :: "json \<Rightarrow> json \<Rightarrow> bool" where
  "same_id a b = strict_eq (message_id_of a) (message_id_of b)"

definition has_numeric_id :: "json \<Rightarrow> bool" where
  "has_numeric_id m =
     (case get m (str ''message_id'') of Inr (Some (JNum n)) \<Rightarrow> True | _ \<Rightarrow> False)"

definition sent_time :: "env \<Rightarrow> json \<Rightarrow> int option" where
  "sent_time E m = (case get m (str ''sent_at'') of Inl e \<Rightarrow> None | Inr v \<Rightarrow> getTime E v)"

definition sent_ms :: "env \<Rightarrow> json \<Rightarrow> int" where
  "sent_ms E m = (case sent_time E m of None \<Rightarrow> 0 | Some t \<Rightarrow> t)"

text \<open>
  The frames of an arrival sequence that \<open>ingest\<close> does not take for duplicates: those
  whose id is not \<open>===\<close> the id of a frame in \<open>seen\<close> or of an earlier one kept.
\<close>

fun first_by_id :: "json list \<Rightarrow> json list \<Rightarrow> json list" where
  "first_by_id seen [] = []"
| "first_by_id seen (m # ms) =
     (if \<exists>k\<in>set seen. same_id k m then first_by_id seen ms
      else m # first_by_id (seen @ [m]) ms)"

text \<open>
  Where the binary insertion puts \<open>x\<close> in a list that is sorted by a key: after every
  key up to its own.
\<close>

abbreviation ins :: "('a \<Rightarrow> int) \<Rightarrow> 'a \<Rightarrow> 'a list \<Rightarrow> 'a list" where
  "ins f x ys \<equiv> takeWhile (\<lambda>y. f y \<le> f x) ys @ x # dropWhile (\<lambda>y. f y \<le> f x) ys"

text \<open>The \<open>readyState\<close> of the socket in \<open>wsRef.current\<close>, \<open>None\<close> when there is none.\<close>

definition handle_state :: "chat \<Rightarrow> ready_state option" where
  "handle_state s =
     (case wsRef s of
        None \<Rightarrow> None
      | Some i \<Rightarrow> if i < length (sockets s) then Some (sockets s ! i) else None)"

text \<open>
  What the filter callback of \<open>fetchUsers\<close> returns on an entry that has a \<open>user_id\<close> to
  read: whether that is not \<open>===\<close> the current user's id.
\<close>

definition is_other_user :: "env \<Rightarrow> json \<Rightarrow> bool" where
  "is_other_user E user =
     (case get user (str ''user_id'') of
        Inl e \<Rightarrow> False
      | Inr uid \<Rightarrow> \<not> strict_eq uid (Some (JNum (currentUserId E))))"



section \<open>Concrete inputs\<close>

text \<open>
  An environment for the examples: the current user is 1, the local time zone is UTC,
  the render happens on 2 November 2026 at 12:00, and the date parser and the JSON parser
  are the real ones restricted to the strings the examples use.
\<close>

definition example_getTime :: "json option \<Rightarrow> int option" where
  "example_getTime v =
     (case v of
        Some (JStr s) \<Rightarrow>
          map_of [(str ''2026-11-02T10:00:00Z'', 1793613600000),
                  (str ''2026-11-02T10:05:00Z'', 1793613900000),
                  (str ''2026-11-01T23:50:00Z'', 1793577000000)] s
      | _ \<Rightarrow> None)"

definition example_parse :: "js_string \<Rightarrow> json option" where
  "example_parse data = map_of [(str ''{}'', JObj []), (str ''null'', JNull)] data"

definition example_env :: env where
  "example_env =
     \<lparr>currentUserId = 1, url_ok = True, JSON_parse = example_parse,
      getTime = example_getTime, local_day = (\<lambda>t. t div 86400000),
      toLocaleDateString = (\<lambda>t. str ''inny dzien''), now = 1793620800000\<rparr>"

definition user42 :: json where
  "user42 = JObj [(str ''user_id'', JNum 42), (str ''username'', JStr (str ''ola''))]"

text \<open>
  A chat with an open socket, user 42 selected and the draft \<open>hi\<close>; the same with the
  draft \<open>  hi \<close>; and the same after the server has closed the socket.
\<close>

definition example_open :: chat where
  "example_open =
     \<lparr>messages = [], users = [user42], selectedUser = Some user42, newMessage = str ''hi'',
      isConnected = True, wsRef = Some 0, sockets = [OPEN], timers = 0, wire = [],
      users_pending = 0\<rparr>"

definition example_padded :: chat where
  "example_padded = example_open\<lparr>newMessage := str ''  hi ''\<rparr>"

definition example_closed :: chat where
  "example_closed = example_open\<lparr>isConnected := False, sockets := [CLOSED], timers := 1\<rparr>"

text \<open>
  Messages between the current user 1 and user 42: two of today, one of yesterday evening,
  one with the time of the first that arrives later, and a redelivery of the first id.
\<close>

definition mk_message :: "rat \<Rightarrow> rat \<Rightarrow> rat \<Rightarrow> string \<Rightarrow> string \<Rightarrow> json" where
  "mk_message i s r c t =
     JObj [(str ''message_id'', JNum i), (str ''sender_id'', JNum s),
           (str ''receiver_id'', JNum r), (str ''content'', JStr (str c)),
           (str ''sent_at'', JStr (str t))]"

definition today_1000 :: json where
  "today_1000 = mk_message 1 1 42 ''first'' ''2026-11-02T10:00:00Z''"

definition today_1005 :: json where
  "today_1005 = mk_message 2 42 1 ''second'' ''2026-11-02T10:05:00Z''"

definition yesterday_2350 :: json where
  "yesterday_2350 = mk_message 3 1 42 ''third'' ''2026-11-01T23:50:00Z''"

definition today_1000_later :: json where
  "today_1000_later = mk_message 4 42 1 ''fourth'' ''2026-11-02T10:00:00Z''"

definition today_1000_again :: json where
  "today_1000_again = mk_message 1 1 42 ''first, redelivered'' ''2026-11-02T10:05:00Z''"

text \<open>A message of another conversation, from user 7, whose \<open>sent_at\<close> is no date.\<close>

definition undated :: json where
  "undated = mk_message 5 7 1 ''fifth'' ''soon''"

text \<open>The current user's own entry in a directory response, and an empty profile cache.\<close>

definition user1 :: json where
  "user1 = JObj [(str ''user_id'', JNum 1), (str ''username'', JStr (str ''ja''))]"

definition example_directory :: directory where
  "example_directory = \<lparr>cache = Map.empty, outstanding = []\<rparr>"

section \<open>The message store\<close>

lemma compare_sent_at_valid:
  assumes "sent_time E a = Some ta" and "sent_time E b = Some tb"
  shows "compare_sent_at E a b = Inr (Some (ta - tb))"
  using assms by (auto simp: compare_sent_at_def sent_time_def split: sum.splits)

text \<open>A comparator that is the difference of a key on the elements of a set.\<close>

lemma compare_sent_at_keyed:
  assumes "\<forall>y\<in>S. sent_time E y \<noteq> None" and "a \<in> S" and "b \<in> S"
  shows "compare_sent_at E a b = Inr (Some (sent_ms E a - sent_ms E b))"
proof -
  from assms obtain ta tb where t: "sent_time E a = Some ta" "sent_time E b = Some tb" by blast
  then have "sent_ms E a = ta" "sent_ms E b = tb" by (simp_all add: sent_ms_def)
  with compare_sent_at_valid[OF t] show ?thesis by simp
qed

lemma extend_run_keyed:
  assumes "\<forall>a\<in>insert previous (set xs). \<forall>b\<in>insert previous (set xs).
             cmp a b = Inr (Some (f a - f b))"
  shows "\<exists>n. extend_run cmp d previous xs = Inr n \<and> n \<le> length xs
     \<and> (d \<longrightarrow> sorted_wrt (\<lambda>a b. f b < f a) (previous # take n xs))
     \<and> (\<not> d \<longrightarrow> sorted_wrt (\<lambda>a b. f a \<le> f b) (previous # take n xs))"
  using assms
proof (induction xs arbitrary: previous)
  case Nil
  then show ?case by simp
next
  case (Cons current rest)
  have c: "cmp current previous = Inr (Some (f current - f previous))"
    using Cons.prems by simp
  have "\<forall>a\<in>insert current (set rest). \<forall>b\<in>insert current (set rest).
             cmp a b = Inr (Some (f a - f b))"
    using Cons.prems by simp
  from Cons.IH[OF this] obtain n where
    n: "extend_run cmp d current rest = Inr n" "n \<le> length rest"
       "d \<longrightarrow> sorted_wrt (\<lambda>a b. f b < f a) (current # take n rest)"
       "\<not> d \<longrightarrow> sorted_wrt (\<lambda>a b. f a \<le> f b) (current # take n rest)"
    by blast
  show ?case
  proof (cases "negative (Some (f current - f previous)) = d")
    case False
    with c show ?thesis by simp
  next
    case True
    then have e: "extend_run cmp d previous (current # rest) = Inr (Suc n)"
      using c n(1) by simp
    show ?thesis
    proof (cases d)
      case True
      with \<open>negative (Some (f current - f previous)) = d\<close> have lt: "f current < f previous"
        by (simp add: negative_def)
      from True n(3) have s: "sorted_wrt (\<lambda>a b. f b < f a) (current # take n rest)" by simp
      then have "\<forall>y\<in>set (take n rest). f y < f previous" using lt by auto
      with s lt e n(2) True show ?thesis by simp
    next
      case False
      with \<open>negative (Some (f current - f previous)) = d\<close> have le: "f previous \<le> f current"
        by (simp add: negative_def)
      from False n(4) have s: "sorted_wrt (\<lambda>a b. f a \<le> f b) (current # take n rest)" by simp
      then have "\<forall>y\<in>set (take n rest). f previous \<le> f y" using le by auto
      with s le e n(2) False show ?thesis by simp
    qed
  qed
qed

lemma filter_rev_distinct_keys:
  assumes "sorted_wrt (\<lambda>a b. f b < (f a :: int)) xs"
  shows "filter (\<lambda>z. k = f z) (rev xs) = filter (\<lambda>z. k = f z) xs"
  using assms
proof (induction xs)
  case Nil
  then show ?case by simp
next
  case (Cons x xs)
  then have r: "filter (\<lambda>z. k = f z) (rev xs) = filter (\<lambda>z. k = f z) xs" by simp
  show ?case
  proof (cases "k = f x")
    case True
    with Cons.prems have "filter (\<lambda>z. k = f z) xs = []"
      by (auto simp: filter_empty_conv)
    with r True show ?thesis by simp
  next
    case False
    with r show ?thesis by simp
  qed
qed

lemma sorted_rev_descending:
  assumes "sorted_wrt (\<lambda>a b. f b < (f a :: int)) xs"
  shows "sorted (map f (rev xs))"
proof -
  have "sorted_wrt (\<lambda>a b. f a \<le> f b) (rev xs)"
    unfolding sorted_wrt_rev using assms by (rule sorted_wrt_mono_rel[rotated]) auto
  then show ?thesis by (simp add: sorted_map)
qed

lemma count_and_make_run_keyed:
  assumes "\<forall>a\<in>set xs. \<forall>b\<in>set xs. cmp a b = Inr (Some (f a - f b))"
  shows "\<exists>made pre rest. count_and_make_run cmp xs = Inr (made, rest) \<and> xs = pre @ rest
     \<and> mset made = mset pre \<and> sorted (map f made)
     \<and> (\<forall>k. filter (\<lambda>z. k = f z) made = filter (\<lambda>z. k = f z) pre)"
proof -
  consider "xs = []" | v where "xs = [v]" | hi lo rest where "xs = hi # lo # rest"
    by (metis list.exhaust)
  then show ?thesis
  proof cases
    case 1
    then show ?thesis by simp
  next
    case 2
    then show ?thesis by simp
  next
    case 3
  then have xs: "xs = hi # lo # rest" by simp
  have c: "cmp lo hi = Inr (Some (f lo - f hi))" using assms xs by simp
  let ?d = "negative (Some (f lo - f hi))"
  have "\<forall>a\<in>insert lo (set rest). \<forall>b\<in>insert lo (set rest). cmp a b = Inr (Some (f a - f b))"
    using assms xs by simp
  from extend_run_keyed[OF this, of ?d] obtain n where
    n: "extend_run cmp ?d lo rest = Inr n" "n \<le> length rest"
       "?d \<longrightarrow> sorted_wrt (\<lambda>a b. f b < f a) (lo # take n rest)"
       "\<not> ?d \<longrightarrow> sorted_wrt (\<lambda>a b. f a \<le> f b) (lo # take n rest)"
    by blast
  let ?pre = "hi # lo # take n rest"
  have split: "xs = ?pre @ drop n rest" using xs by simp
  show ?thesis
  proof (cases ?d)
    case True
    then have lt: "f lo < f hi" by (simp add: negative_def)
    from True n(3) have s: "sorted_wrt (\<lambda>a b. f b < f a) (lo # take n rest)" by simp
    then have "\<forall>y\<in>set (take n rest). f y < f hi" using lt by auto
    with s lt have d: "sorted_wrt (\<lambda>a b. f b < f a) ?pre" by simp
    have r: "count_and_make_run cmp xs = Inr (rev ?pre, drop n rest)"
      using xs c n(1) True by simp
    have "mset (rev ?pre) = mset ?pre" by simp
    moreover have "sorted (map f (rev ?pre))" by (rule sorted_rev_descending[OF d])
    moreover have "\<forall>k. filter (\<lambda>z. k = f z) (rev ?pre) = filter (\<lambda>z. k = f z) ?pre"
      using filter_rev_distinct_keys[OF d] by blast
    ultimately show ?thesis using r split by blast
  next
    case False
    then have le: "f hi \<le> f lo" by (simp add: negative_def)
    from False n(4) have s: "sorted_wrt (\<lambda>a b. f a \<le> f b) (lo # take n rest)" by simp
    then have "\<forall>y\<in>set (take n rest). f hi \<le> f y" using le by auto
    with s le have "sorted_wrt (\<lambda>a b. f a \<le> f b) ?pre" by simp
    then have a: "sorted (map f ?pre)" by (simp add: sorted_map)
    have r: "count_and_make_run cmp xs = Inr (?pre, drop n rest)"
      using xs c n(1) False by simp
    from r split a show ?thesis by blast
  qed
  qed
qed

lemma find_slot_keyed:
  assumes "\<forall>y\<in>set xs. cmp p y = Inr (Some (f p - f y))" and "sorted (map f xs)"
    and "left \<le> right" and "right \<le> length xs"
    and "\<forall>i<left. f (xs ! i) \<le> f p"
    and "\<forall>i. right \<le> i \<and> i < length xs \<longrightarrow> f p < f (xs ! i)"
  shows "\<exists>k. find_slot cmp p xs left right = Inr k \<and> k \<le> length xs
     \<and> (\<forall>i<k. f (xs ! i) \<le> f p)
     \<and> (\<forall>i. k \<le> i \<and> i < length xs \<longrightarrow> f p < f (xs ! i))"
  using assms(3-6)
proof (induction "right - left" arbitrary: left right rule: less_induct)
  case less
  show ?case
  proof (cases "left < right")
    case False
    with less.prems have "left = right" by simp
    with less.prems show ?thesis by (subst find_slot.simps) auto
  next
    case True
    define mid where "mid = left + (right - left) div 2"
    have m: "left \<le> mid" "mid < right" using True by (simp_all add: mid_def)
    then have ml: "mid < length xs" using less.prems by simp
    then have c: "cmp p (xs ! mid) = Inr (Some (f p - f (xs ! mid)))"
      using assms(1) by simp
    have mono: "f (xs ! i) \<le> f (xs ! j)" if "i \<le> j" "j < length xs" for i j
      using sorted_nth_mono[OF assms(2), of i j] that by simp
    show ?thesis
    proof (cases "f p < f (xs ! mid)")
      case True
      have "\<forall>i. mid \<le> i \<and> i < length xs \<longrightarrow> f p < f (xs ! i)"
      proof (intro allI impI)
        fix i assume "mid \<le> i \<and> i < length xs"
        then have "f (xs ! mid) \<le> f (xs ! i)" using mono[of mid i] by simp
        with True show "f p < f (xs ! i)" by simp
      qed
      moreover have "mid - left < right - left" using m by simp
      ultimately have "\<exists>k. find_slot cmp p xs left mid = Inr k \<and> k \<le> length xs
         \<and> (\<forall>i<k. f (xs ! i) \<le> f p)
         \<and> (\<forall>i. k \<le> i \<and> i < length xs \<longrightarrow> f p < f (xs ! i))"
        using less.hyps[of mid left] m ml less.prems by simp
      moreover have "find_slot cmp p xs left right = find_slot cmp p xs left mid"
        using \<open>left < right\<close> c True
        by (subst find_slot.simps) (simp add: mid_def negative_def)
      ultimately show ?thesis by simp
    next
      case False
      have "\<forall>i<Suc mid. f (xs ! i) \<le> f p"
      proof (intro allI impI)
        fix i assume "i < Suc mid"
        then have "f (xs ! i) \<le> f (xs ! mid)" using mono[of i mid] ml by simp
        with False show "f (xs ! i) \<le> f p" by simp
      qed
      moreover have "right - Suc mid < right - left" using m by simp
      ultimately have "\<exists>k. find_slot cmp p xs (Suc mid) right = Inr k \<and> k \<le> length xs
         \<and> (\<forall>i<k. f (xs ! i) \<le> f p)
         \<and> (\<forall>i. k \<le> i \<and> i < length xs \<longrightarrow> f p < f (xs ! i))"
        using less.hyps[of right "Suc mid"] m less.prems by simp
      moreover have "find_slot cmp p xs left right = find_slot cmp p xs (Suc mid) right"
        using \<open>left < right\<close> c False
        by (subst find_slot.simps) (simp add: mid_def negative_def)
      ultimately show ?thesis by simp
    qed
  qed
qed

lemma sorted_takeWhile_filter:
  "sorted (map f ys) \<Longrightarrow> takeWhile (\<lambda>y. f y \<le> (k::int)) ys = filter (\<lambda>y. f y \<le> k) ys"
  by (induction ys) (auto intro!: filter_False[symmetric] simp: dest: order_trans)

lemma sorted_dropWhile_filter:
  "sorted (map f ys) \<Longrightarrow> dropWhile (\<lambda>y. f y \<le> (k::int)) ys = filter (\<lambda>y. \<not> f y \<le> k) ys"
proof (induction ys)
  case Nil
  then show ?case by simp
next
  case (Cons y ys)
  show ?case
  proof (cases "f y \<le> k")
    case True
    with Cons show ?thesis by simp
  next
    case False
    with Cons.prems have "\<forall>z\<in>set ys. \<not> f z \<le> k" by auto
    then have "filter (\<lambda>y. \<not> f y \<le> k) ys = ys" by (simp add: filter_True)
    with False show ?thesis by simp
  qed
qed

lemma mset_takeWhile_dropWhile: "mset (takeWhile P ys) + mset (dropWhile P ys) = mset ys"
  by (metis mset_append takeWhile_dropWhile_id)

lemma mset_ins: "mset (ins f x ys) = add_mset x (mset ys)"
  by (simp add: mset_takeWhile_dropWhile)

lemma set_ins: "set (ins f x ys) = insert x (set ys)"
  by (metis mset_ins set_mset_add_mset_insert set_mset_mset)

lemma sorted_ins: "sorted (map f ys) \<Longrightarrow> sorted (map f (ins f x ys))"
  by (auto simp: sorted_takeWhile_filter sorted_dropWhile_filter sorted_append
      sorted_filter)

lemma filter_ins:
  "sorted (map f ys) \<Longrightarrow>
   filter (\<lambda>z. k = f z) (ins f x ys) = filter (\<lambda>z. k = f z) (ys @ [x])"
proof -
  assume s: "sorted (map f ys)"
  have ys: "ys = filter (\<lambda>y. f y \<le> f x) ys @ filter (\<lambda>y. \<not> f y \<le> f x) ys"
    using sorted_takeWhile_filter[OF s, of "f x"] sorted_dropWhile_filter[OF s, of "f x"]
    by (metis takeWhile_dropWhile_id)
  show ?thesis
  proof (cases "k = f x")
    case True
    have "filter (\<lambda>z. k = f z) (filter (\<lambda>y. \<not> f y \<le> f x) ys) = []"
      using True by (auto simp: filter_empty_conv)
    moreover have "filter (\<lambda>z. k = f z) ys =
       filter (\<lambda>z. k = f z) (filter (\<lambda>y. f y \<le> f x) ys) @
       filter (\<lambda>z. k = f z) (filter (\<lambda>y. \<not> f y \<le> f x) ys)"
      using ys by (metis filter_append)
    ultimately show ?thesis
      using True by (simp add: sorted_takeWhile_filter[OF s] sorted_dropWhile_filter[OF s])
  next
    case False
    have "filter (\<lambda>z. k = f z) ys =
       filter (\<lambda>z. k = f z) (filter (\<lambda>y. f y \<le> f x) ys) @
       filter (\<lambda>z. k = f z) (filter (\<lambda>y. \<not> f y \<le> f x) ys)"
      using ys by (metis filter_append)
    then show ?thesis
      using False by (simp add: sorted_takeWhile_filter[OF s] sorted_dropWhile_filter[OF s])
  qed
qed

lemma sort_key_ins:
  assumes "sorted (map f acc)"
  shows "sort_key f (acc @ x # xs) = sort_key f (ins f x acc @ xs)"
proof (rule properties_for_sort_key)
  show "mset (sort_key f (ins f x acc @ xs)) = mset (acc @ x # xs)"
    by (simp add: mset_takeWhile_dropWhile)
  show "sorted (map f (sort_key f (ins f x acc @ xs)))"
    by simp
  fix k
  have "filter (\<lambda>z. f k = f z) (sort_key f (ins f x acc @ xs)) =
        filter (\<lambda>z. f k = f z) (ins f x acc @ xs)"
    using sort_key_stable[of f "f k" "ins f x acc @ xs"] by (simp add: eq_commute)
  also have "\<dots> = filter (\<lambda>z. f k = f z) (ins f x acc) @ filter (\<lambda>z. f k = f z) xs"
    by simp
  also have "\<dots> = filter (\<lambda>z. f k = f z) (acc @ [x]) @ filter (\<lambda>z. f k = f z) xs"
    using filter_ins[OF assms, of "f k" x] by simp
  finally show "filter (\<lambda>z. f k = f z) (sort_key f (ins f x acc @ xs)) =
        filter (\<lambda>z. f k = f z) (acc @ x # xs)"
    by simp
qed

lemma find_slot_ins:
  assumes "\<forall>y\<in>set xs. cmp p y = Inr (Some (f p - f y))" and "sorted (map f xs)"
  shows "\<exists>k. find_slot cmp p xs 0 (length xs) = Inr k
     \<and> take k xs @ p # drop k xs = ins f p xs"
proof -
  have "\<exists>k. find_slot cmp p xs 0 (length xs) = Inr k \<and> k \<le> length xs
     \<and> (\<forall>i<k. f (xs ! i) \<le> f p)
     \<and> (\<forall>i. k \<le> i \<and> i < length xs \<longrightarrow> f p < f (xs ! i))"
    by (rule find_slot_keyed) (use assms in simp_all)
  then obtain k where
    k: "find_slot cmp p xs 0 (length xs) = Inr k" "k \<le> length xs"
       "\<forall>i<k. f (xs ! i) \<le> f p"
       "\<forall>i. k \<le> i \<and> i < length xs \<longrightarrow> f p < f (xs ! i)"
    by blast
  have t: "takeWhile (\<lambda>y. f y \<le> f p) xs = take k xs"
  proof (rule takeWhile_eq_take_P_nth)
    show "\<And>i. i < k \<Longrightarrow> i < length xs \<Longrightarrow> f (xs ! i) \<le> f p" using k(3) by simp
    show "k < length xs \<Longrightarrow> \<not> f (xs ! k) \<le> f p" using k(4) by auto
  qed
  then have "length (takeWhile (\<lambda>y. f y \<le> f p) xs) = k" using k(2) by simp
  then have "dropWhile (\<lambda>y. f y \<le> f p) xs = drop k xs"
    using dropWhile_eq_drop[of "\<lambda>y. f y \<le> f p" xs] by simp
  with t k(1) show ?thesis by simp
qed

lemma binary_insertion_sort_keyed:
  assumes "\<forall>a\<in>set acc \<union> set xs. \<forall>b\<in>set acc \<union> set xs. cmp a b = Inr (Some (f a - f b))"
    and "sorted (map f acc)"
  shows "binary_insertion_sort cmp acc xs = Inr (sort_key f (acc @ xs))"
  using assms
proof (induction xs arbitrary: acc)
  case Nil
  then show ?case by (simp add: sort_key_id_if_sorted)
next
  case (Cons x xs)
  have "\<forall>y\<in>set acc. cmp x y = Inr (Some (f x - f y))" using Cons.prems(1) by simp
  from find_slot_ins[where cmp = cmp and p = x and f = f and xs = acc, OF this Cons.prems(2)]
  obtain k where
    k: "find_slot cmp x acc 0 (length acc) = Inr k"
       "take k acc @ x # drop k acc = ins f x acc" by blast
  have "\<forall>a\<in>set (ins f x acc) \<union> set xs. \<forall>b\<in>set (ins f x acc) \<union> set xs.
          cmp a b = Inr (Some (f a - f b))"
    using Cons.prems(1) set_ins[of f x acc] by auto
  from Cons.IH[OF this sorted_ins[OF Cons.prems(2)]]
  have "binary_insertion_sort cmp (ins f x acc) xs = Inr (sort_key f (ins f x acc @ xs))" .
  then show ?case
    using k sort_key_ins[OF Cons.prems(2), of x xs] by simp
qed

lemma array_sort_keyed:
  assumes "\<forall>a\<in>set xs. \<forall>b\<in>set xs. cmp a b = Inr (Some (f a - f b))"
  shows "array_sort cmp xs = Inr (sort_key f xs)"
proof -
  from count_and_make_run_keyed[OF assms] obtain made pre rest where
    r: "count_and_make_run cmp xs = Inr (made, rest)" "xs = pre @ rest"
       "mset made = mset pre" "sorted (map f made)"
       "\<forall>k. filter (\<lambda>z. k = f z) made = filter (\<lambda>z. k = f z) pre"
    by blast
  have s: "set made = set pre" using r(3) by (rule mset_eq_setD)
  have "\<forall>a\<in>set made \<union> set rest. \<forall>b\<in>set made \<union> set rest. cmp a b = Inr (Some (f a - f b))"
    using assms r(2) s by auto
  from binary_insertion_sort_keyed[OF this r(4)]
  have b: "binary_insertion_sort cmp made rest = Inr (sort_key f (made @ rest))" .
  have "sort_key f (pre @ rest) = sort_key f (made @ rest)"
  proof (rule properties_for_sort_key)
    show "mset (sort_key f (made @ rest)) = mset (pre @ rest)" using r(3) by simp
    show "sorted (map f (sort_key f (made @ rest)))" by simp
    fix k
    have "filter (\<lambda>z. f k = f z) (sort_key f (made @ rest)) =
          filter (\<lambda>z. f k = f z) (made @ rest)"
      using sort_key_stable[of f "f k" "made @ rest"] by (simp add: eq_commute)
    also have "\<dots> = filter (\<lambda>z. f k = f z) (pre @ rest)" using r(5) by simp
    finally show "filter (\<lambda>z. f k = f z) (sort_key f (made @ rest)) =
          filter (\<lambda>z. f k = f z) (pre @ rest)" .
  qed
  with r(1,2) b show ?thesis by (simp add: array_sort_def)
qed

lemma array_sort_valid:
  assumes "\<forall>y\<in>set xs. sent_time E y \<noteq> None"
  shows "array_sort (compare_sent_at E) xs = Inr (sort_key (sent_ms E) xs)"
proof (rule array_sort_keyed)
  show "\<forall>a\<in>set xs. \<forall>b\<in>set xs.
          compare_sent_at E a b = Inr (Some (sent_ms E a - sent_ms E b))"
    using compare_sent_at_keyed[OF assms] by blast
qed

lemma some_same_id_total:
  assumes "message \<noteq> JNull" and "JNull \<notin> set prev"
  shows "some_same_id message prev = Inr (\<exists>m\<in>set prev. same_id m message)"
  using assms(2)
proof (induction prev)
  case Nil
  then show ?case by simp
next
  case (Cons m ms)
  then have "m \<noteq> JNull" by auto
  then obtain a where a: "get m (str ''message_id'') = Inr a" by (cases m) auto
  from assms(1) obtain b where b: "get message (str ''message_id'') = Inr b"
    by (cases message) auto
  have "same_id m message = strict_eq a b"
    using a b by (simp add: same_id_def message_id_of_def)
  with Cons a b show ?case by auto
qed

lemma sent_time_not_null: "sent_time E m \<noteq> None \<Longrightarrow> m \<noteq> JNull"
  by (auto simp: sent_time_def)

lemma sort_key_sort_key_append:
  "sort_key f (sort_key f xs @ ys) = sort_key f (xs @ ys)"
proof (rule properties_for_sort_key[symmetric])
  show "mset (sort_key f (sort_key f xs @ ys)) = mset (xs @ ys)" by simp
  show "sorted (map f (sort_key f (sort_key f xs @ ys)))" by simp
  fix k
  show "filter (\<lambda>z. f k = f z) (sort_key f (sort_key f xs @ ys)) =
        filter (\<lambda>z. f k = f z) (xs @ ys)"
    using sort_key_stable[of f "f k" "sort_key f xs @ ys"] sort_key_stable[of f "f k" xs]
    by (simp add: eq_commute)
qed

lemma ingest_valid:
  assumes "sent_time E m \<noteq> None" and "\<forall>y\<in>set ds. sent_time E y \<noteq> None"
  shows "ingest E m (sort_key (sent_ms E) ds) =
         Inr (sort_key (sent_ms E) (if \<exists>k\<in>set ds. same_id k m then ds else ds @ [m]))"
proof -
  have n: "m \<noteq> JNull" "JNull \<notin> set (sort_key (sent_ms E) ds)"
    using assms sent_time_not_null by auto
  have s: "some_same_id m (sort_key (sent_ms E) ds) = Inr (\<exists>k\<in>set ds. same_id k m)"
    using some_same_id_total[OF n] by simp
  show ?thesis
  proof (cases "\<exists>k\<in>set ds. same_id k m")
    case True
    then show ?thesis using s by (simp add: ingest_def)
  next
    case False
    have "array_sort (compare_sent_at E) (sort_key (sent_ms E) ds @ [m]) =
          Inr (sort_key (sent_ms E) (sort_key (sent_ms E) ds @ [m]))"
      using assms by (intro array_sort_valid) auto
    then show ?thesis
      using s False by (simp add: ingest_def sort_key_sort_key_append)
  qed
qed

lemma ingest_all_valid:
  assumes "\<forall>y\<in>set ms. sent_time E y \<noteq> None" and "\<forall>y\<in>set ds. sent_time E y \<noteq> None"
  shows "ingest_all E ms (sort_key (sent_ms E) ds) =
         Inr (sort_key (sent_ms E) (ds @ first_by_id ds ms))"
  using assms
proof (induction ms arbitrary: ds)
  case Nil
  then show ?case by simp
next
  case (Cons m ms)
  have i: "ingest E m (sort_key (sent_ms E) ds) =
         Inr (sort_key (sent_ms E) (if \<exists>k\<in>set ds. same_id k m then ds else ds @ [m]))"
    using Cons.prems by (intro ingest_valid) auto
  show ?case
  proof (cases "\<exists>k\<in>set ds. same_id k m")
    case True
    then show ?thesis using i Cons by simp
  next
    case False
    have "ingest_all E ms (sort_key (sent_ms E) (ds @ [m])) =
         Inr (sort_key (sent_ms E) ((ds @ [m]) @ first_by_id (ds @ [m]) ms))"
      using Cons.prems by (intro Cons.IH) auto
    then show ?thesis using i False by simp
  qed
qed

lemma str_eq_iff: "str a = str b \<longleftrightarrow> a = b"
  unfolding str_def by (rule inj_map_eq_map) (rule inj_of_char)

lemma with_user_total: "msg \<noteq> JNull \<Longrightarrow> \<exists>b. with_user E userId msg = Inr b"
  by (cases msg) (auto simp: with_user_def)

lemma getMessagesWithUser_filter:
  assumes "JNull \<notin> set msgs"
  shows "getMessagesWithUser E userId msgs =
         Inr (filter (\<lambda>msg. with_user E userId msg = Inr True) msgs)"
  using assms
proof (induction msgs)
  case Nil
  then show ?case by simp
next
  case (Cons msg msgs)
  then have "msg \<noteq> JNull" by auto
  from with_user_total[OF this] obtain b where "with_user E userId msg = Inr b" by blast
  with Cons show ?case by auto
qed

lemma first_by_id_subset: "set (first_by_id seen ms) \<subseteq> set ms"
  by (induction ms arbitrary: seen) auto

lemma sorted_precedes:
  assumes "sorted (map f xs)" and "i < length xs" and "j < length xs" and "f (xs ! i) < f (xs ! j)"
  shows "i < j"
proof (rule ccontr)
  assume "\<not> i < j"
  then have "j \<le> i" by simp
  with assms(1,2) have "map f xs ! j \<le> map f xs ! i"
    by (intro sorted_nth_mono) auto
  with assms show False by simp
qed

text \<open>
  Claim C4, as the code has it. Let every frame of an arrival sequence carry a \<open>sent_at\<close> that is a valid
  date. Then ingesting the sequence succeeds, and for every \<open>userId\<close> the projection
  \<open>getMessagesWithUser\<close> of the store
  \<^item> is sorted non-decreasingly by the time of \<open>sent_at\<close>;
  \<^item> has an entry with a smaller time before every entry with a larger one, whatever
    the arrival order was;
  \<^item> holds the entries of one time in the order in which they arrived;
  in all, it is the stable sort of the conversation's frames in arrival order (redelivered
  ids left out).
\<close>

theorem projection_sorted_stable:
  assumes "\<forall>m\<in>set ms. sent_time E m \<noteq> None"
  shows "\<exists>store proj arrived.
      ingest_all E ms [] = Inr store
    \<and> getMessagesWithUser E userId store = Inr proj
    \<and> getMessagesWithUser E userId (first_by_id [] ms) = Inr arrived
    \<and> sorted (map (sent_ms E) proj)
    \<and> (\<forall>i j. i < length proj \<and> j < length proj
           \<and> sent_ms E (proj ! i) < sent_ms E (proj ! j) \<longrightarrow> i < j)
    \<and> (\<forall>t. filter (\<lambda>m. sent_ms E m = t) proj = filter (\<lambda>m. sent_ms E m = t) arrived)
    \<and> proj = sort_key (sent_ms E) arrived"
proof -
  define kept where "kept = first_by_id [] ms"
  define store where "store = sort_key (sent_ms E) kept"
  define P where "P = (\<lambda>msg. with_user E userId msg = Inr True)"
  define arrived where "arrived = filter P kept"
  define proj where "proj = filter P store"
  have "ingest_all E ms (sort_key (sent_ms E) []) =
        Inr (sort_key (sent_ms E) ([] @ first_by_id [] ms))"
    using assms by (intro ingest_all_valid) auto
  then have 1: "ingest_all E ms [] = Inr store"
    by (simp add: store_def kept_def)
  have nn: "JNull \<notin> set kept"
    using assms first_by_id_subset[of "[]" ms] sent_time_not_null
    unfolding kept_def by blast
  then have nn': "JNull \<notin> set store" by (simp add: store_def)
  have 2: "getMessagesWithUser E userId store = Inr proj"
    unfolding proj_def P_def by (rule getMessagesWithUser_filter[OF nn'])
  have 3: "getMessagesWithUser E userId (first_by_id [] ms) = Inr arrived"
    unfolding arrived_def P_def using getMessagesWithUser_filter[OF nn] by (simp add: kept_def)
  have 7: "proj = sort_key (sent_ms E) arrived"
    by (simp add: proj_def arrived_def store_def filter_sort)
  have 4: "sorted (map (sent_ms E) proj)"
    by (simp add: 7)
  have 5: "\<forall>i j. i < length proj \<and> j < length proj
           \<and> sent_ms E (proj ! i) < sent_ms E (proj ! j) \<longrightarrow> i < j"
    using sorted_precedes[OF 4] by blast
  have 6: "\<forall>t. filter (\<lambda>m. sent_ms E m = t) proj = filter (\<lambda>m. sent_ms E m = t) arrived"
    by (simp add: 7 sort_key_stable)
  from 1 2 3 4 5 6 7 show ?thesis by blast
qed

lemmas example_simps =
  mk_message_def today_1000_def today_1005_def yesterday_2350_def today_1000_later_def
  today_1000_again_def example_env_def example_getTime_def example_parse_def
  str_eq_iff sent_time_def sent_ms_def message_id_of_def same_id_def compare_sent_at_def
  ingest_def array_sort_def negative_def with_user_def has_numeric_id_def
  undated_def

lemma example_store:
  "ingest_all example_env [today_1000, today_1005, yesterday_2350, today_1000_later] [] =
     Inr [yesterday_2350, today_1000, today_1000_later, today_1005]"
  by (simp add: example_simps)

text \<open>
  The theorem at four frames that arrive out of time order, two of them with one time.
\<close>

theorem projection_sorted_stable_witness:
  "ingest_all example_env [today_1000, today_1005, yesterday_2350, today_1000_later] [] =
     Inr [yesterday_2350, today_1000, today_1000_later, today_1005]
   \<and> getMessagesWithUser example_env (Some (JNum 42))
        [yesterday_2350, today_1000, today_1000_later, today_1005] =
     Inr [yesterday_2350, today_1000, today_1000_later, today_1005]
   \<and> sorted (map (sent_ms example_env)
        [yesterday_2350, today_1000, today_1000_later, today_1005])
   \<and> map (sent_ms example_env) [yesterday_2350, today_1000, today_1000_later, today_1005] =
     [1793577000000, 1793613600000, 1793613600000, 1793613900000]"
proof -
  let ?ms = "[today_1000, today_1005, yesterday_2350, today_1000_later]"
  let ?st = "[yesterday_2350, today_1000, today_1000_later, today_1005]"
  have h: "\<forall>m\<in>set ?ms. sent_time example_env m \<noteq> None"
    by (simp add: example_simps)
  from projection_sorted_stable[OF h, of "Some (JNum 42)"] obtain store proj where
    1: "ingest_all example_env ?ms [] = Inr store"
    and 2: "getMessagesWithUser example_env (Some (JNum 42)) store = Inr proj"
    and 3: "sorted (map (sent_ms example_env) proj)"
    by blast
  have s: "store = ?st" using 1 example_store by simp
  have p: "getMessagesWithUser example_env (Some (JNum 42)) ?st = Inr ?st"
    by (simp add: example_simps)
  with 2 s have "proj = ?st" by simp
  with 3 have "sorted (map (sent_ms example_env) ?st)" by simp
  moreover have "map (sent_ms example_env) ?st =
     [1793577000000, 1793613600000, 1793613600000, 1793613900000]"
    by (simp add: example_simps)
  ultimately show ?thesis using example_store p by blast
qed

text \<open>
  Claim C4 as stated fails: nothing tests that \<open>sent_at\<close> is a date. A frame of another
  conversation arrives with the \<open>sent_at\<close> \<open>soon\<close>. Its comparisons give NaN, which the
  sort takes for 0, so the array \<open>[today, undated, yesterday]\<close> counts as one ascending
  run and stays as it is. The projection of the conversation with user 42 then shows the
  message of today before the message of yesterday, both with valid dates.
\<close>

theorem projection_out_of_order_counterexample:
  "ingest_all example_env [today_1000, undated, yesterday_2350] [] =
     Inr [today_1000, undated, yesterday_2350]
   \<and> getMessagesWithUser example_env (Some (JNum 42)) [today_1000, undated, yesterday_2350] =
     Inr [today_1000, yesterday_2350]
   \<and> sent_time example_env undated = None
   \<and> sent_time example_env today_1000 = Some 1793613600000
   \<and> sent_time example_env yesterday_2350 = Some 1793577000000
   \<and> \<not> sorted (map (sent_ms example_env) [today_1000, yesterday_2350])"
  by (simp add: example_simps)

lemma has_numeric_idD:
  assumes "has_numeric_id m"
  shows "m \<noteq> JNull" and "\<exists>n. message_id_of m = Some (JNum n)"
  using assms
  by (auto simp: has_numeric_id_def message_id_of_def split: sum.splits option.splits json.splits)

lemma same_id_numeric:
  assumes "has_numeric_id a" and "has_numeric_id b"
  shows "same_id a b \<longleftrightarrow> message_id_of a = message_id_of b"
  using has_numeric_idD(2)[OF assms(1)] has_numeric_idD(2)[OF assms(2)]
  by (auto simp: same_id_def)

lemma compare_sent_at_total:
  "a \<noteq> JNull \<Longrightarrow> b \<noteq> JNull \<Longrightarrow> \<exists>c. compare_sent_at E a b = Inr c"
  by (cases a; cases b) (auto simp: compare_sent_at_def)

lemma find_slot_total:
  assumes "\<forall>y\<in>set xs. \<exists>c. cmp p y = Inr c" and "left \<le> right" and "right \<le> length xs"
  shows "\<exists>k. find_slot cmp p xs left right = Inr k \<and> k \<le> length xs"
  using assms(2,3)
proof (induction "right - left" arbitrary: left right rule: less_induct)
  case less
  show ?case
  proof (cases "left < right")
    case False
    with less.prems show ?thesis by (subst find_slot.simps) auto
  next
    case True
    define mid where "mid = left + (right - left) div 2"
    have m: "left \<le> mid" "mid < right" using True by (simp_all add: mid_def)
    then have "mid < length xs" using less.prems by simp
    then have "xs ! mid \<in> set xs" by simp
    with assms(1) obtain c where c: "cmp p (xs ! mid) = Inr c" by blast
    have 1: "\<exists>k. find_slot cmp p xs left mid = Inr k \<and> k \<le> length xs"
      using less.hyps[of mid left] m less.prems by simp
    have 2: "\<exists>k. find_slot cmp p xs (Suc mid) right = Inr k \<and> k \<le> length xs"
      using less.hyps[of right "Suc mid"] m less.prems by simp
    have "find_slot cmp p xs left right =
            (if negative c then find_slot cmp p xs left mid
             else find_slot cmp p xs (Suc mid) right)"
      using True c by (subst find_slot.simps) (simp add: mid_def)
    with 1 2 show ?thesis by simp
  qed
qed

lemma extend_run_total:
  assumes "\<forall>a\<in>insert previous (set xs). \<forall>b\<in>insert previous (set xs). \<exists>c. cmp a b = Inr c"
  shows "\<exists>n. extend_run cmp d previous xs = Inr n"
  using assms
proof (induction xs arbitrary: previous)
  case Nil
  then show ?case by simp
next
  case (Cons current rest)
  from Cons.prems obtain c where c: "cmp current previous = Inr c" by auto
  have "\<forall>a\<in>insert current (set rest). \<forall>b\<in>insert current (set rest). \<exists>c. cmp a b = Inr c"
    using Cons.prems by simp
  from Cons.IH[OF this] obtain n where "extend_run cmp d current rest = Inr n" by blast
  with c show ?case by simp
qed

lemma count_and_make_run_total:
  assumes "\<forall>a\<in>set xs. \<forall>b\<in>set xs. \<exists>c. cmp a b = Inr c"
  shows "\<exists>made rest. count_and_make_run cmp xs = Inr (made, rest)
     \<and> mset made + mset rest = mset xs"
proof -
  consider "xs = []" | v where "xs = [v]" | hi lo rest where "xs = hi # lo # rest"
    by (metis list.exhaust)
  then show ?thesis
  proof cases
    case 1
    then show ?thesis by simp
  next
    case 2
    then show ?thesis by simp
  next
    case 3
    with assms obtain c where c: "cmp lo hi = Inr c" by auto
    have "\<forall>a\<in>insert lo (set rest). \<forall>b\<in>insert lo (set rest). \<exists>c. cmp a b = Inr c"
      using assms 3 by simp
    from extend_run_total[OF this, of "negative c"] obtain n where
      n: "extend_run cmp (negative c) lo rest = Inr n" by blast
    have "mset (take n rest) + mset (drop n rest) = mset rest"
      by (metis append_take_drop_id mset_append)
    then show ?thesis using 3 c n by auto
  qed
qed

lemma binary_insertion_sort_mset:
  assumes "\<forall>a\<in>set acc \<union> set xs. \<forall>b\<in>set acc \<union> set xs. \<exists>c. cmp a b = Inr c"
  shows "\<exists>zs. binary_insertion_sort cmp acc xs = Inr zs \<and> mset zs = mset acc + mset xs"
  using assms
proof (induction xs arbitrary: acc)
  case Nil
  then show ?case by simp
next
  case (Cons x xs)
  have "\<forall>y\<in>set acc. \<exists>c. cmp x y = Inr c" using Cons.prems by simp
  from find_slot_total[where cmp = cmp and p = x and xs = acc and left = 0
      and right = "length acc", OF this]
  obtain k where k: "find_slot cmp x acc 0 (length acc) = Inr k" by auto
  let ?acc = "take k acc @ x # drop k acc"
  have m: "mset ?acc = add_mset x (mset acc)"
    by (metis append_take_drop_id mset.simps(2) mset_append union_mset_add_mset_right)
  then have "set ?acc = insert x (set acc)"
    by (metis set_mset_add_mset_insert set_mset_mset)
  then have "\<forall>a\<in>set ?acc \<union> set xs. \<forall>b\<in>set ?acc \<union> set xs. \<exists>c. cmp a b = Inr c"
    using Cons.prems by auto
  from Cons.IH[OF this] obtain zs where
    "binary_insertion_sort cmp ?acc xs = Inr zs" "mset zs = mset ?acc + mset xs" by blast
  with k m show ?case by simp
qed

lemma array_sort_mset:
  assumes "\<forall>a\<in>set xs. \<forall>b\<in>set xs. \<exists>c. cmp a b = Inr c"
  shows "\<exists>zs. array_sort cmp xs = Inr zs \<and> mset zs = mset xs"
proof -
  from count_and_make_run_total[OF assms] obtain made rest where
    r: "count_and_make_run cmp xs = Inr (made, rest)" "mset made + mset rest = mset xs"
    by blast
  then have "set made \<union> set rest = set xs"
    by (metis set_mset_mset set_mset_union)
  then have "\<forall>a\<in>set made \<union> set rest. \<forall>b\<in>set made \<union> set rest. \<exists>c. cmp a b = Inr c"
    using assms by simp
  from binary_insertion_sort_mset[OF this] r show ?thesis
    by (auto simp: array_sort_def)
qed

lemma ingest_non_null:
  assumes "m \<noteq> JNull" and "JNull \<notin> set prev"
  shows "\<exists>store'. ingest E m prev = Inr store'
     \<and> ((\<exists>k\<in>set prev. same_id k m) \<longrightarrow> store' = prev)
     \<and> (\<not> (\<exists>k\<in>set prev. same_id k m) \<longrightarrow> mset store' = add_mset m (mset prev))"
proof -
  have s: "some_same_id m prev = Inr (\<exists>k\<in>set prev. same_id k m)"
    by (rule some_same_id_total[OF assms])
  show ?thesis
  proof (cases "\<exists>k\<in>set prev. same_id k m")
    case True
    then show ?thesis using s by (simp add: ingest_def)
  next
    case False
    have "\<forall>a\<in>set (prev @ [m]). \<forall>b\<in>set (prev @ [m]).
            \<exists>c. compare_sent_at E a b = Inr c"
      using assms by (auto intro!: compare_sent_at_total)
    from array_sort_mset[OF this] obtain zs where
      "array_sort (compare_sent_at E) (prev @ [m]) = Inr zs" "mset zs = mset (prev @ [m])"
      by auto
    then show ?thesis using s False by (simp add: ingest_def)
  qed
qed

lemma distinct_map_mset:
  assumes "mset xs = mset ys"
  shows "distinct (map f xs) \<longleftrightarrow> distinct (map f ys)"
proof -
  have "mset (map f xs) = mset (map f ys)" using assms by simp
  then show ?thesis by (rule mset_eq_imp_distinct_iff)
qed

lemma ingest_numeric:
  assumes "has_numeric_id m" and "\<forall>k\<in>set prev. has_numeric_id k"
    and "distinct (map message_id_of prev)"
  shows "\<exists>store'. ingest E m prev = Inr store'
     \<and> (\<forall>k\<in>set store'. has_numeric_id k)
     \<and> distinct (map message_id_of store')
     \<and> (\<exists>k\<in>set store'. message_id_of k = message_id_of m)
     \<and> ((\<exists>k\<in>set prev. message_id_of k = message_id_of m) \<longrightarrow> store' = prev)"
proof -
  have nn: "m \<noteq> JNull" "JNull \<notin> set prev"
    using assms has_numeric_idD(1) by auto
  have e: "(\<exists>k\<in>set prev. same_id k m) \<longleftrightarrow> (\<exists>k\<in>set prev. message_id_of k = message_id_of m)"
    using assms same_id_numeric by blast
  from ingest_non_null[OF nn, of E] obtain store' where
    i: "ingest E m prev = Inr store'"
    and d: "(\<exists>k\<in>set prev. same_id k m) \<longrightarrow> store' = prev"
    and n: "\<not> (\<exists>k\<in>set prev. same_id k m) \<longrightarrow> mset store' = add_mset m (mset prev)"
    by blast
  show ?thesis
  proof (cases "\<exists>k\<in>set prev. message_id_of k = message_id_of m")
    case True
    with d e have "store' = prev" by simp
    with i True assms show ?thesis by simp
  next
    case False
    with n e have m: "mset store' = mset (m # prev)" by simp
    then have s: "set store' = set (m # prev)" by (rule mset_eq_setD)
    have "distinct (map message_id_of (m # prev))"
      using False assms(3) by auto
    with distinct_map_mset[OF m, of message_id_of] have "distinct (map message_id_of store')" by simp
    with i s assms False show ?thesis by auto
  qed
qed

lemma ingest_all_numeric:
  assumes "\<forall>m\<in>set ms. has_numeric_id m" and "\<forall>k\<in>set prev. has_numeric_id k"
    and "distinct (map message_id_of prev)"
  shows "\<exists>store. ingest_all E ms prev = Inr store
     \<and> (\<forall>k\<in>set store. has_numeric_id k) \<and> distinct (map message_id_of store)"
  using assms
proof (induction ms arbitrary: prev)
  case Nil
  then show ?case by simp
next
  case (Cons m ms)
  have "has_numeric_id m" using Cons.prems by simp
  from ingest_numeric[OF this Cons.prems(2,3), of E] obtain store' where
    s: "ingest E m prev = Inr store'" "\<forall>k\<in>set store'. has_numeric_id k"
      "distinct (map message_id_of store')" by blast
  have "\<forall>m\<in>set ms. has_numeric_id m" using Cons.prems by simp
  from Cons.IH[OF this s(2,3)] s(1) show ?case by simp
qed

text \<open>
  Claim C5. Let every frame have a numeric \<open>message_id\<close>. Then in the store reached by
  ingesting any sequence no two entries share an id; ingesting a frame whose id is already
  there returns the store as it is; and ingesting a frame a second time returns what the
  first time returned.
\<close>

theorem ingest_dedup:
  assumes "\<forall>m\<in>set ms. has_numeric_id m" and "has_numeric_id m"
  shows "\<exists>store store1.
      ingest_all E ms [] = Inr store
    \<and> distinct (map message_id_of store)
    \<and> ingest E m store = Inr store1
    \<and> distinct (map message_id_of store1)
    \<and> ((\<exists>k\<in>set store. message_id_of k = message_id_of m) \<longrightarrow> store1 = store)
    \<and> ingest E m store1 = Inr store1"
proof -
  from ingest_all_numeric[OF assms(1), of "[]" E] obtain store where
    s: "ingest_all E ms [] = Inr store" "\<forall>k\<in>set store. has_numeric_id k"
      "distinct (map message_id_of store)" by auto
  from ingest_numeric[OF assms(2) s(2,3), of E] obtain store1 where
    s1: "ingest E m store = Inr store1" "\<forall>k\<in>set store1. has_numeric_id k"
      "distinct (map message_id_of store1)"
      "\<exists>k\<in>set store1. message_id_of k = message_id_of m"
      "(\<exists>k\<in>set store. message_id_of k = message_id_of m) \<longrightarrow> store1 = store" by blast
  from ingest_numeric[OF assms(2) s1(2,3), of E] s1(4)
  have "ingest E m store1 = Inr store1" by auto
  with s s1 show ?thesis by blast
qed

text \<open>
  The theorem at a redelivery: the id 1 arrives again, with another content, and is dropped.
\<close>

theorem ingest_dedup_witness:
  "ingest_all example_env [today_1000, today_1005, today_1000_again] [] =
     Inr [today_1000, today_1005]
   \<and> ingest example_env today_1000_again [today_1000, today_1005] = Inr [today_1000, today_1005]
   \<and> distinct (map message_id_of [today_1000, today_1005])
   \<and> map message_id_of [today_1000, today_1005, today_1000_again] =
       [Some (JNum 1), Some (JNum 2), Some (JNum 1)]"
proof -
  let ?ms = "[today_1000, today_1005]"
  have h: "\<forall>m\<in>set ?ms. has_numeric_id m" "has_numeric_id today_1000_again"
    by (simp_all add: example_simps)
  from ingest_dedup[OF h, of example_env] obtain store store1 where
    1: "ingest_all example_env ?ms [] = Inr store"
    and 2: "distinct (map message_id_of store)"
    and 3: "ingest example_env today_1000_again store = Inr store1"
    and 4: "(\<exists>k\<in>set store. message_id_of k = message_id_of today_1000_again) \<longrightarrow> store1 = store"
    by blast
  have e: "ingest_all example_env ?ms [] = Inr ?ms"
    by (simp add: example_simps)
  with 1 have s: "store = ?ms" by simp
  have "\<exists>k\<in>set ?ms. message_id_of k = message_id_of today_1000_again"
    by (simp add: example_simps)
  with 4 s have "store1 = ?ms" by blast
  with 3 s have i: "ingest example_env today_1000_again ?ms = Inr ?ms" by simp
  have a: "ingest_all example_env [today_1000, today_1005, today_1000_again] [] = Inr ?ms"
    by (simp add: example_simps)
  have m: "map message_id_of [today_1000, today_1005, today_1000_again] =
       [Some (JNum 1), Some (JNum 2), Some (JNum 1)]"
    by (simp add: example_simps)
  from 2 s i a m show ?thesis by simp
qed

text \<open>
  Claim C6, as the code has it: a frame on which \<open>JSON.parse\<close> throws is dropped. The
  store and the whole chat state stay as they were, and nothing escapes the handler.
\<close>

theorem onmessage_drops_unparsable:
  assumes "JSON_parse E data = None"
  shows "onmessage E data prev = Inr prev \<and> step E (WsMessage i data) s = Inr s"
  using assms by (simp add: onmessage_def)

text \<open>
  The theorem at the frame \<open>not json\<close>.
\<close>

theorem onmessage_drops_unparsable_witness:
  "JSON_parse example_env (str ''not json'') = None
   \<and> onmessage example_env (str ''not json'') [today_1000] = Inr [today_1000]
   \<and> step example_env (WsMessage 0 (str ''not json'')) example_open = Inr example_open"
proof -
  have h: "JSON_parse example_env (str ''not json'') = None"
    by (simp add: example_simps)
  from onmessage_drops_unparsable[OF h, of "[today_1000]" 0 example_open] h
  show ?thesis by simp
qed

text \<open>
  Claim C6 as stated fails: the only test at the boundary is \<open>JSON.parse\<close>. The frame
  \<open>{}\<close> is JSON and no \<open>Message\<close>, and it is inserted. The frame \<open>null\<close> is inserted
  into an empty store, where the next \<open>getMessagesWithUser\<close> throws on it, and makes the
  updater throw on a store that has an entry.
\<close>

theorem onmessage_inserts_non_message_counterexample:
  "JSON_parse example_env (str ''{}'') = Some (JObj [])
   \<and> onmessage example_env (str ''{}'') [] = Inr [JObj []]
   \<and> JSON_parse example_env (str ''null'') = Some JNull
   \<and> onmessage example_env (str ''null'') [] = Inr [JNull]
   \<and> getMessagesWithUser example_env (Some (JNum 42)) [JNull] = Inl TypeError
   \<and> onmessage example_env (str ''null'') [today_1000] = Inl TypeError
   \<and> step example_env (WsMessage 0 (str ''{}'')) example_open =
       Inr (example_open\<lparr>messages := [JObj []]\<rparr>)"
  by (simp add: example_simps onmessage_def example_open_def)

section \<open>Sending\<close>

lemma trim_hd_last:
  assumes "trim s \<noteq> []"
  shows "\<not> is_white_space (hd (trim s)) \<and> \<not> is_white_space (last (trim s))"
proof -
  define t where "t = dropWhile is_white_space s"
  define u where "u = dropWhile is_white_space (rev t)"
  have tr: "trim s = rev u" by (simp add: trim_def t_def u_def)
  with assms have u: "u \<noteq> []" by simp
  then have hu: "\<not> is_white_space (hd u)" unfolding u_def by (rule hd_dropWhile)
  from u have t: "t \<noteq> []" unfolding u_def by auto
  then have ht: "\<not> is_white_space (hd t)" unfolding t_def by (rule hd_dropWhile)
  have "rev t = takeWhile is_white_space (rev t) @ u" by (simp add: u_def)
  then have "last (rev t) = last u" using u by (metis last_appendR)
  then have "last u = hd t" using t by (simp add: last_rev)
  with hu ht u show ?thesis by (simp add: tr hd_rev last_rev)
qed

lemma truthy_get: "truthy (Some u) \<Longrightarrow> \<exists>v. get u k = Inr v"
  by (cases u) auto

lemma sendMessage_cases:
  "sendMessage E s = Inr s \<or>
   (\<exists>i. wsRef s = Some i \<and> (handle_state s = Some CLOSING \<or> handle_state s = Some CLOSED \<or> handle_state s = None) \<and> sendMessage E s = Inr (s\<lparr>newMessage := []\<rparr>)) \<or>
   (\<exists>i u uid. wsRef s = Some i \<and> handle_state s = Some OPEN \<and> selectedUser s = Some u \<and> truthy (Some u)
       \<and> trim (newMessage s) \<noteq> []
       \<and> get u (str ''user_id'') = Inr uid
       \<and> sendMessage E s = Inr (s\<lparr>wire := wire s @ [(i, \<lparr>sender_id = currentUserId E, receiver_id = uid, content = trim (newMessage s)\<rparr>)], newMessage := []\<rparr>))"
proof (cases "trim (newMessage s) = [] \<or> \<not> truthy (selectedUser s) \<or> wsRef s = None")
  case True
  then show ?thesis by (simp add: sendMessage_def)
next
  case False
  then obtain u i where u: "selectedUser s = Some u" and i: "wsRef s = Some i"
    and tu: "truthy (Some u)" and tr: "trim (newMessage s) \<noteq> []"
    by (cases "selectedUser s"; cases "wsRef s") auto
  from truthy_get[OF tu] obtain uid where uid: "get u (str ''user_id'') = Inr uid" by blast
  have g: "\<not> (trim (newMessage s) = [] \<or> \<not> truthy (selectedUser s) \<or> wsRef s = None)"
    using False .
  have sm: "sendMessage E s =
      (case ws_send i \<lparr>sender_id = currentUserId E, receiver_id = uid,
                        content = trim (newMessage s)\<rparr> s of
         Inl e \<Rightarrow> Inr s
       | Inr s' \<Rightarrow> Inr (s'\<lparr>newMessage := []\<rparr>))"
    unfolding sendMessage_def using g by (simp add: u i uid)
  show ?thesis
  proof (cases "i < length (sockets s)")
    case False
    then have "ws_send i \<lparr>sender_id = currentUserId E, receiver_id = uid,
                        content = trim (newMessage s)\<rparr> s = Inr s"
      by (simp add: ws_send_def)
    moreover have "handle_state s = None" using False i by (simp add: handle_state_def)
    ultimately show ?thesis using sm i by simp
  next
    case True
    then have hs: "handle_state s = Some (sockets s ! i)" using i by (simp add: handle_state_def)
    show ?thesis
    proof (cases "sockets s ! i")
      case CONNECTING
      then show ?thesis using sm True by (simp add: ws_send_def)
    next
      case OPEN
      then have "sendMessage E s = Inr (s\<lparr>wire := wire s @ [(i, \<lparr>sender_id = currentUserId E, receiver_id = uid, content = trim (newMessage s)\<rparr>)], newMessage := []\<rparr>)"
        using sm True by (simp add: ws_send_def)
      moreover have "handle_state s = Some OPEN" using OPEN hs by simp
      ultimately show ?thesis using i u tu tr uid by blast
    next
      case CLOSING
      then have "sendMessage E s = Inr (s\<lparr>newMessage := []\<rparr>)"
        using sm True by (simp add: ws_send_def)
      moreover have "handle_state s = Some CLOSING" using CLOSING hs by simp
      ultimately show ?thesis using i by blast
    next
      case CLOSED
      then have "sendMessage E s = Inr (s\<lparr>newMessage := []\<rparr>)"
        using sm True by (simp add: ws_send_def)
      moreover have "handle_state s = Some CLOSED" using CLOSED hs by simp
      ultimately show ?thesis using i by blast
    qed
  qed
qed

text \<open>
  Claim C3, as the code has it. \<open>sendMessage\<close> never lets an exception escape. It leaves
  the state as it is when the draft trims to empty, no user is selected, \<open>wsRef.current\<close>
  is \<open>null\<close>, or the socket there is still connecting (the InvalidStateError of \<open>send\<close>
  is caught). It puts no frame on the wire unless that socket is open. With the draft
  \<open>hi\<close>, user 42 selected and the socket open, it transmits exactly the frame
  \<open>{sender_id: currentUserId, receiver_id: 42, content: "hi"}\<close> and clears the draft.
\<close>

theorem sendMessage_gating:
  "\<exists>s'. sendMessage E s = Inr s'
     \<and> (trim (newMessage s) = [] \<or> \<not> truthy (selectedUser s) \<or> wsRef s = None
          \<or> handle_state s = Some CONNECTING \<longrightarrow> s' = s)
     \<and> (handle_state s \<noteq> Some OPEN \<longrightarrow> wire s' = wire s)
     \<and> (newMessage s = str ''hi'' \<and> selectedUser s = Some u
          \<and> get u (str ''user_id'') = Inr (Some (JNum 42))
          \<and> wsRef s = Some i \<and> handle_state s = Some OPEN \<longrightarrow>
          s' = s\<lparr>wire := wire s @ [(i, \<lparr>sender_id = currentUserId E,
                                         receiver_id = Some (JNum 42),
                                         content = str ''hi''\<rparr>)],
                 newMessage := []\<rparr>)"
proof -
  have hi: "trim (str ''hi'') = str ''hi''"
    by (simp add: trim_def str_def is_white_space_def)
  have hi_ne: "str ''hi'' \<noteq> []"
    by (simp add: str_def)
  consider
    (same) "sendMessage E s = Inr s"
  | (dropped) j where "wsRef s = Some j"
      "handle_state s = Some CLOSING \<or> handle_state s = Some CLOSED \<or> handle_state s = None"
      "sendMessage E s = Inr (s\<lparr>newMessage := []\<rparr>)"
  | (sent) j v uid where "wsRef s = Some j" "handle_state s = Some OPEN"
      "selectedUser s = Some v" "truthy (Some v)" "trim (newMessage s) \<noteq> []" "get v (str ''user_id'') = Inr uid"
      "sendMessage E s = Inr (s\<lparr>wire := wire s @ [(j, \<lparr>sender_id = currentUserId E,
          receiver_id = uid, content = trim (newMessage s)\<rparr>)], newMessage := []\<rparr>)"
    using sendMessage_cases[of E s] by blast
  then show ?thesis
  proof cases
    case same
    have "\<not> (newMessage s = str ''hi'' \<and> selectedUser s = Some u
          \<and> get u (str ''user_id'') = Inr (Some (JNum 42))
          \<and> wsRef s = Some i \<and> handle_state s = Some OPEN)"
    proof
      assume a: "newMessage s = str ''hi'' \<and> selectedUser s = Some u
          \<and> get u (str ''user_id'') = Inr (Some (JNum 42))
          \<and> wsRef s = Some i \<and> handle_state s = Some OPEN"
      then have il: "i < length (sockets s)" and op: "sockets s ! i = OPEN"
        by (auto simp: handle_state_def split: if_splits)
      have tu: "truthy (Some u)" using a by (cases u) auto
      have "sendMessage E s = Inr (s\<lparr>wire := wire s @ [(i, \<lparr>sender_id = currentUserId E,
          receiver_id = Some (JNum 42), content = str ''hi''\<rparr>)], newMessage := []\<rparr>)"
        using a il op tu hi hi_ne by (simp add: sendMessage_def ws_send_def)
      with same have "s = s\<lparr>wire := wire s @ [(i, \<lparr>sender_id = currentUserId E,
          receiver_id = Some (JNum 42), content = str ''hi''\<rparr>)], newMessage := []\<rparr>"
        by simp
      then have "wire s = wire s @ [(i, \<lparr>sender_id = currentUserId E,
          receiver_id = Some (JNum 42), content = str ''hi''\<rparr>)]"
        by (metis chat.select_convs(9) chat.surjective chat.update_convs(4) chat.update_convs(9))
      then show False by simp
    qed
    with same show ?thesis by blast
  next
    case dropped
    have "\<not> (trim (newMessage s) = [] \<or> \<not> truthy (selectedUser s) \<or> wsRef s = None
          \<or> handle_state s = Some CONNECTING) \<or> s\<lparr>newMessage := []\<rparr> = s"
    proof (cases "trim (newMessage s) = [] \<or> \<not> truthy (selectedUser s) \<or> wsRef s = None")
      case True
      then have "sendMessage E s = Inr s" by (simp add: sendMessage_def)
      with dropped(3) show ?thesis by simp
    next
      case False
      with dropped(2) show ?thesis by auto
    qed
    moreover have "handle_state s \<noteq> Some OPEN" using dropped(2) by auto
    ultimately show ?thesis using dropped(3) by auto
  next
    case sent
    have "trim (newMessage s) \<noteq> []" "truthy (selectedUser s)" "wsRef s \<noteq> None"
      "handle_state s \<noteq> Some CONNECTING"
      using sent by auto
    moreover have "newMessage s = str ''hi'' \<and> selectedUser s = Some u
          \<and> get u (str ''user_id'') = Inr (Some (JNum 42))
          \<and> wsRef s = Some i \<and> handle_state s = Some OPEN \<Longrightarrow>
          j = i \<and> uid = Some (JNum 42) \<and> trim (newMessage s) = str ''hi''"
      using sent hi by auto
    ultimately show ?thesis using sent(2,7) by auto
  qed
qed

lemma str_hi: "trim (str ''hi'') = str ''hi''" "str ''hi'' \<noteq> []"
  by (simp_all add: trim_def str_def is_white_space_def)

text \<open>
  The theorem at the open chat (one frame), at a draft of one space and without a socket
  (no change).
\<close>

theorem sendMessage_gating_witness:
  "sendMessage example_env example_open =
     Inr (example_open\<lparr>wire := [(0, \<lparr>sender_id = 1, receiver_id = Some (JNum 42),
                                       content = str ''hi''\<rparr>)],
                       newMessage := []\<rparr>)
   \<and> sendMessage example_env (example_open\<lparr>newMessage := str '' ''\<rparr>) =
       Inr (example_open\<lparr>newMessage := str '' ''\<rparr>)
   \<and> sendMessage example_env (example_open\<lparr>wsRef := None, sockets := []\<rparr>) =
       Inr (example_open\<lparr>wsRef := None, sockets := []\<rparr>)"
proof -
  have g: "get user42 (str ''user_id'') = Inr (Some (JNum 42))"
    by (simp add: user42_def str_def)
  have h: "handle_state example_open = Some OPEN"
    by (simp add: handle_state_def example_open_def)
  have a: "newMessage example_open = str ''hi'' \<and> selectedUser example_open = Some user42
      \<and> get user42 (str ''user_id'') = Inr (Some (JNum 42))
      \<and> wsRef example_open = Some 0 \<and> handle_state example_open = Some OPEN"
    using g h by (simp add: example_open_def)
  have b: "trim (newMessage (example_open\<lparr>newMessage := str '' ''\<rparr>)) = []"
    by (simp add: trim_def str_def is_white_space_def)
  have c: "wsRef (example_open\<lparr>wsRef := None, sockets := []\<rparr>) = None"
    by simp
  show ?thesis
    using sendMessage_gating[of example_env example_open user42 0] a
      sendMessage_gating[of example_env "example_open\<lparr>newMessage := str '' ''\<rparr>" user42 0] b
      sendMessage_gating[of example_env "example_open\<lparr>wsRef := None, sockets := []\<rparr>" user42 0] c
    by (auto simp: example_env_def example_open_def)
qed

text \<open>
  Claim C3 as stated fails: the guard of \<open>sendMessage\<close> tests that a socket exists, not
  that it is open. After the server has closed the socket, \<open>send\<close> is called on it, the
  browser discards the data, and the draft is cleared, so the call is not a no-op. The
  form reaches such a state with the button enabled: after a change of \<open>token\<close> the socket
  in \<open>wsRef\<close> is closed while an older socket has set \<open>isConnected\<close>; the submitted draft
  is cleared and no frame goes out.
\<close>

theorem sendMessage_closed_counterexample:
  "run example_env
       [Effect, UsersResponse (Response True (Some (JArr [user42]))), WsOpen 0,
        Select user42, Input (str ''hi''), WsClose 0] init = Inr example_closed
   \<and> handle_state example_closed = Some CLOSED
   \<and> newMessage example_closed = str ''hi''
   \<and> sendMessage example_env example_closed = Inr (example_closed\<lparr>newMessage := []\<rparr>)
   \<and> sendMessage example_env example_closed \<noteq> Inr example_closed
   \<and> run example_env
       [Effect, UsersResponse (Response True (Some (JArr [user42]))), Cleanup, Effect,
        WsClose 0, Timeout, WsClose 2, WsOpen 1, Select user42, Input (str ''hi'')] init =
     Inr (init\<lparr>users := [user42], selectedUser := Some user42, newMessage := str ''hi'',
               isConnected := True, wsRef := Some 2, sockets := [CLOSED, OPEN, CLOSED],
               timers := 1, users_pending := 1\<rparr>)
   \<and> run example_env
       [Effect, UsersResponse (Response True (Some (JArr [user42]))), Cleanup, Effect,
        WsClose 0, Timeout, WsClose 2, WsOpen 1, Select user42, Input (str ''hi''), Submit] init =
     Inr (init\<lparr>users := [user42], selectedUser := Some user42, newMessage := [],
               isConnected := True, wsRef := Some 2, sockets := [CLOSED, OPEN, CLOSED],
               timers := 1, users_pending := 1\<rparr>)"
proof -
  have g: "get user42 (str ''user_id'') = Inr (Some (JNum 42))"
    by (simp add: user42_def str_def)
  have t: "truthy (Some user42)" by (simp add: user42_def)
  have 0: "run example_env
       [Effect, UsersResponse (Response True (Some (JArr [user42]))), WsOpen 0,
        Select user42, Input (str ''hi''), WsClose 0] init = Inr example_closed"
    using g
    by (simp add: init_def example_env_def connectWebSocket_def onopen_def onclose_def
        fetchUsers_def example_closed_def example_open_def)
  have 1: "sendMessage example_env example_closed = Inr (example_closed\<lparr>newMessage := []\<rparr>)"
    using g t str_hi
    by (simp add: sendMessage_def ws_send_def example_closed_def example_open_def)
  have 2: "newMessage example_closed = str ''hi''"
    by (simp add: example_closed_def example_open_def)
  have 3: "handle_state example_closed = Some CLOSED"
    by (simp add: handle_state_def example_closed_def example_open_def)
  have "newMessage (example_closed\<lparr>newMessage := []\<rparr>) \<noteq> newMessage example_closed"
    using 2 str_hi by simp
  then have "example_closed\<lparr>newMessage := []\<rparr> \<noteq> example_closed"
    by (metis chat.select_convs(4) chat.surjective chat.update_convs(4))
  with 1 have 4: "sendMessage example_env example_closed \<noteq> Inr example_closed" by simp
  have 5: "run example_env
       [Effect, UsersResponse (Response True (Some (JArr [user42]))), Cleanup, Effect,
        WsClose 0, Timeout, WsClose 2, WsOpen 1, Select user42, Input (str ''hi'')] init =
     Inr (init\<lparr>users := [user42], selectedUser := Some user42, newMessage := str ''hi'',
               isConnected := True, wsRef := Some 2, sockets := [CLOSED, OPEN, CLOSED],
               timers := 1, users_pending := 1\<rparr>)"
    using g
    by (simp add: init_def example_env_def connectWebSocket_def cleanup_def ws_close_def
        onopen_def onclose_def fetchUsers_def)
  have 6: "run example_env
       [Effect, UsersResponse (Response True (Some (JArr [user42]))), Cleanup, Effect,
        WsClose 0, Timeout, WsClose 2, WsOpen 1, Select user42, Input (str ''hi''), Submit] init =
     Inr (init\<lparr>users := [user42], selectedUser := Some user42, newMessage := [],
               isConnected := True, wsRef := Some 2, sockets := [CLOSED, OPEN, CLOSED],
               timers := 1, users_pending := 1\<rparr>)"
    using g t str_hi
    by (simp add: init_def example_env_def connectWebSocket_def cleanup_def ws_close_def
        onopen_def onclose_def fetchUsers_def sendMessage_def ws_send_def)
  from 0 1 2 3 4 5 6 show ?thesis by (intro conjI)
qed

text \<open>
  Claim C9: whenever \<open>sendMessage\<close> puts a frame on the wire, it is one frame, its
  content is the trimmed draft, and that content is not empty and neither starts nor ends
  with white space.
\<close>

theorem sendMessage_content_trimmed:
  assumes "sendMessage E s = Inr s'" and "wire s' \<noteq> wire s"
  shows "\<exists>i uid. wire s' = wire s @ [(i, \<lparr>sender_id = currentUserId E, receiver_id = uid,
                                         content = trim (newMessage s)\<rparr>)]
           \<and> trim (newMessage s) \<noteq> []
           \<and> \<not> is_white_space (hd (trim (newMessage s)))
           \<and> \<not> is_white_space (last (trim (newMessage s)))"
proof -
  consider
    (same) "sendMessage E s = Inr s"
  | (dropped) "sendMessage E s = Inr (s\<lparr>newMessage := []\<rparr>)"
  | (sent) j uid where "trim (newMessage s) \<noteq> []"
      "sendMessage E s = Inr (s\<lparr>wire := wire s @ [(j, \<lparr>sender_id = currentUserId E,
          receiver_id = uid, content = trim (newMessage s)\<rparr>)], newMessage := []\<rparr>)"
    using sendMessage_cases[of E s] by blast
  then show ?thesis
  proof cases
    case same
    with assms show ?thesis by simp
  next
    case dropped
    with assms show ?thesis by auto
  next
    case sent
    with assms(1) have "wire s' = wire s @ [(j, \<lparr>sender_id = currentUserId E,
          receiver_id = uid, content = trim (newMessage s)\<rparr>)]"
      by auto
    with sent(1) trim_hd_last[OF sent(1)] show ?thesis by blast
  qed
qed

text \<open>The theorem at the draft \<open>  hi \<close>: the frame carries \<open>hi\<close>.\<close>

theorem sendMessage_content_trimmed_witness:
  "sendMessage example_env example_padded =
     Inr (example_padded\<lparr>wire := [(0, \<lparr>sender_id = 1, receiver_id = Some (JNum 42),
                                         content = str ''hi''\<rparr>)],
                         newMessage := []\<rparr>)
   \<and> trim (newMessage example_padded) = str ''hi''
   \<and> \<not> is_white_space (hd (str ''hi'')) \<and> \<not> is_white_space (last (str ''hi''))"
proof -
  have g: "get user42 (str ''user_id'') = Inr (Some (JNum 42))"
    by (simp add: user42_def str_def)
  have t: "truthy (Some user42)" by (simp add: user42_def)
  have tr: "trim (newMessage example_padded) = str ''hi''"
    by (simp add: example_padded_def example_open_def trim_def str_def is_white_space_def)
  have 1: "sendMessage example_env example_padded =
     Inr (example_padded\<lparr>wire := [(0, \<lparr>sender_id = 1, receiver_id = Some (JNum 42),
                                         content = str ''hi''\<rparr>)],
                         newMessage := []\<rparr>)"
    using g t tr str_hi
    by (simp add: sendMessage_def ws_send_def example_padded_def example_open_def
        example_env_def)
  have 2: "wire (example_padded\<lparr>wire := [(0, \<lparr>sender_id = 1, receiver_id = Some (JNum 42),
                                         content = str ''hi''\<rparr>)],
                         newMessage := []\<rparr>) \<noteq> wire example_padded"
    by (simp add: example_padded_def example_open_def)
  from sendMessage_content_trimmed[OF 1 2] tr 1 show ?thesis by simp
qed


section \<open>The connection\<close>

lemma length_filter_update:
  assumes "i < length xs"
  shows "length (filter P (xs[i := v])) + (if P (xs ! i) then 1 else 0) =
         length (filter P xs) + (if P v then 1 else 0)"
  using assms
proof (induction xs arbitrary: i)
  case Nil
  then show ?case by simp
next
  case (Cons x xs)
  show ?case
  proof (cases i)
    case 0
    then show ?thesis by simp
  next
    case (Suc j)
    with Cons.prems have "j < length xs" by simp
    from Cons.IH[OF this] Suc show ?thesis by simp
  qed
qed

lemma sendMessage_frame:
  assumes "sendMessage E s = Inr s'"
  shows "sockets s' = sockets s \<and> timers s' = timers s \<and> wsRef s' = wsRef s
       \<and> users s' = users s \<and> selectedUser s' = selectedUser s"
  using sendMessage_cases[of E s] assms by auto

lemma non_closed_connect:
  "non_closed (connectWebSocket E s) = (if url_ok E then Suc (non_closed s) else non_closed s)"
  by (simp add: non_closed_def connectWebSocket_def)

text \<open>
  Claim C1 fails on the code. Let \<open>wsRef\<close> hold a socket, and let the owner close: the
  cleanup runs. If the socket is connecting or open, \<open>close()\<close> starts closing it, the
  browser fires \<open>close\<close>, \<open>ws.onclose\<close> sets the reconnect timer, and the timer opens a
  new socket. If the socket is closed and a reconnect is pending, the cleanup does nothing
  and the timer opens a new socket all the same: nothing cancels it.
\<close>

theorem owner_close_reconnects:
  assumes "url_ok E" and "wsRef s = Some i" and "i < length (sockets s)"
  shows "(sockets s ! i = CONNECTING \<or> sockets s ! i = OPEN \<longrightarrow>
            run E [Cleanup, WsClose i, Timeout] s =
              Inr (s\<lparr>isConnected := False,
                     wsRef := Some (length (sockets s)),
                     sockets := (sockets s)[i := CLOSED] @ [CONNECTING]\<rparr>))
       \<and> (sockets s ! i = CLOSED \<and> 0 < timers s \<longrightarrow>
            run E [Cleanup, Timeout] s =
              Inr (s\<lparr>wsRef := Some (length (sockets s)),
                     sockets := sockets s @ [CONNECTING],
                     timers := timers s - 1\<rparr>))"
  using assms
  by (auto simp: cleanup_def ws_close_def onclose_def connectWebSocket_def)

text \<open>
  The theorem at a chat that is mounted, connects, and is unmounted while its socket is
  open, and at one that is unmounted after the server has closed the socket.
\<close>

theorem owner_close_reconnects_witness:
  "run example_env [Effect, WsOpen 0] init =
     Inr (init\<lparr>isConnected := True, wsRef := Some 0, sockets := [OPEN], users_pending := 1\<rparr>)
   \<and> run example_env [Effect, WsOpen 0, Cleanup] init =
     Inr (init\<lparr>isConnected := True, wsRef := Some 0, sockets := [CLOSING],
               users_pending := 1\<rparr>)
   \<and> run example_env [Effect, WsOpen 0, Cleanup, WsClose 0] init =
     Inr (init\<lparr>wsRef := Some 0, sockets := [CLOSED], timers := 1, users_pending := 1\<rparr>)
   \<and> run example_env [Effect, WsOpen 0, Cleanup, WsClose 0, Timeout] init =
     Inr (init\<lparr>wsRef := Some 1, sockets := [CLOSED, CONNECTING], users_pending := 1\<rparr>)
   \<and> run example_env [Effect, WsOpen 0, WsClose 0, Cleanup, Timeout] init =
     Inr (init\<lparr>wsRef := Some 1, sockets := [CLOSED, CONNECTING], users_pending := 1\<rparr>)"
proof -
  let ?s = "init\<lparr>isConnected := True, wsRef := Some 0, sockets := [OPEN], users_pending := 1\<rparr>"
  have 0: "run example_env [Effect, WsOpen 0] init = Inr ?s"
    by (simp add: init_def example_env_def connectWebSocket_def onopen_def)
  have u: "url_ok example_env" by (simp add: example_env_def)
  have w: "wsRef ?s = Some 0" "0 < length (sockets ?s)" "sockets ?s ! 0 = CONNECTING \<or> sockets ?s ! 0 = OPEN"
    by simp_all
  from owner_close_reconnects[OF u w(1,2)] w(3)
  have "run example_env [Cleanup, WsClose 0, Timeout] ?s =
          Inr (?s\<lparr>isConnected := False, wsRef := Some (length (sockets ?s)),
                    sockets := (sockets ?s)[0 := CLOSED] @ [CONNECTING]\<rparr>)"
    by blast
  then have 1: "run example_env [Effect, WsOpen 0, Cleanup, WsClose 0, Timeout] init =
     Inr (init\<lparr>wsRef := Some 1, sockets := [CLOSED, CONNECTING], users_pending := 1\<rparr>)"
    by (simp add: init_def example_env_def connectWebSocket_def onopen_def)
  have 2: "run example_env [Effect, WsOpen 0, Cleanup] init =
     Inr (init\<lparr>isConnected := True, wsRef := Some 0, sockets := [CLOSING],
               users_pending := 1\<rparr>)"
    "run example_env [Effect, WsOpen 0, Cleanup, WsClose 0] init =
     Inr (init\<lparr>wsRef := Some 0, sockets := [CLOSED], timers := 1, users_pending := 1\<rparr>)"
    "run example_env [Effect, WsOpen 0, WsClose 0, Cleanup, Timeout] init =
     Inr (init\<lparr>wsRef := Some 1, sockets := [CLOSED, CONNECTING], users_pending := 1\<rparr>)"
    by (simp_all add: init_def example_env_def connectWebSocket_def cleanup_def ws_close_def
      onopen_def onclose_def)
  from 0 1 2 show ?thesis by (intro conjI)
qed

text \<open>
  Claim C2 as stated fails. Two calls of \<open>connectWebSocket\<close> leave two sockets
  connecting. The component gets there when the \<open>token\<close> changes: the cleanup closes
  socket 0 and the effect opens socket 1; then socket 0 fires \<open>close\<close> and its timer calls
  \<open>connectWebSocket\<close> while socket 1 is connecting. Two sockets are live.
\<close>

theorem two_live_sockets_counterexample:
  "non_closed (connectWebSocket example_env (connectWebSocket example_env init)) = 2
   \<and> run example_env [Effect, WsOpen 0, Cleanup, Effect, WsClose 0, Timeout] init =
     Inr (init\<lparr>wsRef := Some 2, sockets := [CLOSED, CONNECTING, CONNECTING],
               users_pending := 2\<rparr>)
   \<and> non_closed (init\<lparr>wsRef := Some 2, sockets := [CLOSED, CONNECTING, CONNECTING],
               users_pending := 2\<rparr>) = 2
   \<and> live (init\<lparr>wsRef := Some 2, sockets := [CLOSED, CONNECTING, CONNECTING],
               users_pending := 2\<rparr>) = 2"
  by (simp add: init_def example_env_def connectWebSocket_def cleanup_def ws_close_def
      onopen_def onclose_def non_closed_def live_def)

lemma step_no_owner_close:
  assumes "step E ev s = Inr s'" and "ev \<noteq> Cleanup" and "ev \<noteq> Effect"
  shows "non_closed s' + timers s' \<le> non_closed s + timers s"
proof (cases ev)
  case (WsOpen i)
  show ?thesis
  proof (cases "i < length (sockets s) \<and> sockets s ! i = CONNECTING")
    case True
    then have "length (filter (\<lambda>r. r \<noteq> CLOSED) ((sockets s)[i := OPEN])) =
               length (filter (\<lambda>r. r \<noteq> CLOSED) (sockets s))"
      using length_filter_update[of i "sockets s" "\<lambda>r. r \<noteq> CLOSED" OPEN] by simp
    with True assms(1) WsOpen show ?thesis
      by (auto simp: non_closed_def onopen_def)
  next
    case False
    with assms(1) WsOpen show ?thesis by auto
  qed
next
  case (WsMessage i data)
  with assms(1) show ?thesis
    by (auto simp: non_closed_def split: if_splits sum.splits)
next
  case (WsError i)
  with assms(1) show ?thesis
    by (auto simp: non_closed_def onerror_def split: if_splits)
next
  case (WsClose i)
  show ?thesis
  proof (cases "i < length (sockets s) \<and> sockets s ! i \<noteq> CLOSED")
    case True
    then have "Suc (length (filter (\<lambda>r. r \<noteq> CLOSED) ((sockets s)[i := CLOSED]))) =
               length (filter (\<lambda>r. r \<noteq> CLOSED) (sockets s))"
      using length_filter_update[of i "sockets s" "\<lambda>r. r \<noteq> CLOSED" CLOSED] by simp
    with True assms(1) WsClose show ?thesis
      by (auto simp: non_closed_def onclose_def)
  next
    case False
    with assms(1) WsClose show ?thesis by auto
  qed
next
  case Timeout
  with assms(1) show ?thesis
    using non_closed_connect[of E "s\<lparr>timers := timers s - 1\<rparr>"]
    by (auto simp: non_closed_def connectWebSocket_def split: if_splits)
next
  case (UsersResponse r)
  with assms(1) show ?thesis
    by (auto simp: non_closed_def split: if_splits)
next
  case (Input t)
  with assms(1) show ?thesis
    by (auto simp: non_closed_def split: if_splits)
next
  case (Select u)
  with assms(1) show ?thesis
    by (auto simp: non_closed_def split: if_splits)
next
  case Submit
  show ?thesis
  proof (cases "truthy (selectedUser s) \<and> trim (newMessage s) \<noteq> [] \<and> isConnected s")
    case True
    with assms(1) Submit have "sendMessage E s = Inr s'" by simp
    from sendMessage_frame[OF this] show ?thesis by (simp add: non_closed_def)
  next
    case False
    with assms(1) Submit show ?thesis by auto
  qed
qed (use assms in auto)

lemma run_no_owner_close:
  assumes "run E evs s = Inr s'" and "Cleanup \<notin> set evs" and "Effect \<notin> set evs"
  shows "non_closed s' + timers s' \<le> non_closed s + timers s"
  using assms
proof (induction evs arbitrary: s)
  case Nil
  then show ?case by simp
next
  case (Cons ev evs)
  from Cons.prems(1) obtain s1 where
    1: "step E ev s = Inr s1" and 2: "run E evs s1 = Inr s'"
    by (auto split: sum.splits)
  have "non_closed s1 + timers s1 \<le> non_closed s + timers s"
    using step_no_owner_close[OF 1] Cons.prems by auto
  moreover have "non_closed s' + timers s' \<le> non_closed s1 + timers s1"
    using Cons.IH[OF 2] Cons.prems by auto
  ultimately show ?case by simp
qed

lemma live_le_non_closed: "live s \<le> non_closed s"
proof -
  have "length (filter (\<lambda>r. r = CONNECTING \<or> r = OPEN) rs) \<le>
        length (filter (\<lambda>r. r \<noteq> CLOSED) rs)" for rs
    by (induction rs) auto
  then show ?thesis by (simp add: live_def non_closed_def)
qed

text \<open>
  Claim C2, as the code has it. \<open>connectWebSocket\<close> does not test for a socket that is
  already there: every call whose URL the constructor accepts adds one and puts it into
  \<open>wsRef\<close>. In a run in which
  the effect runs once and its cleanup never (no \<open>close()\<close> by the owner), whatever the
  browser and the user do, at most one socket is not closed, none while a reconnect timer
  is pending, and at most one timer is pending.
\<close>

theorem single_connection_without_owner_close:
  assumes "run E (Effect # evs) init = Inr s"
    and "Cleanup \<notin> set evs" and "Effect \<notin> set evs"
  shows "non_closed s + timers s \<le> 1 \<and> live s \<le> 1
       \<and> (\<forall>s0. non_closed (connectWebSocket E s0) =
                 (if url_ok E then Suc (non_closed s0) else non_closed s0))
       \<and> (\<forall>s0. sockets (connectWebSocket E s0) =
                 (if url_ok E then sockets s0 @ [CONNECTING] else sockets s0))
       \<and> (\<forall>s0. wsRef (connectWebSocket E s0) =
                 (if url_ok E then Some (length (sockets s0)) else wsRef s0))"
proof -
  from assms(1) have r: "run E evs ((connectWebSocket E init)\<lparr>users_pending := Suc 0\<rparr>) = Inr s"
    by (simp add: init_def)
  have "non_closed ((connectWebSocket E init)\<lparr>users_pending := Suc 0\<rparr>)
        + timers ((connectWebSocket E init)\<lparr>users_pending := Suc 0\<rparr>) \<le> 1"
    by (simp add: non_closed_def connectWebSocket_def init_def)
  with run_no_owner_close[OF r assms(2,3)] have 1: "non_closed s + timers s \<le> 1" by simp
  with live_le_non_closed[of s] have "live s \<le> 1" by simp
  moreover have "\<forall>s0. sockets (connectWebSocket E s0) =
                 (if url_ok E then sockets s0 @ [CONNECTING] else sockets s0)"
    by (simp add: connectWebSocket_def)
  moreover have "\<forall>s0. wsRef (connectWebSocket E s0) =
                 (if url_ok E then Some (length (sockets s0)) else wsRef s0)"
    by (simp add: connectWebSocket_def)
  ultimately show ?thesis using 1 non_closed_connect by blast
qed

text \<open>
  The theorem at a run in which the server closes the first socket and the timer opens the
  second.
\<close>

theorem single_connection_without_owner_close_witness:
  "run example_env [Effect, WsOpen 0, WsError 0, WsClose 0, Timeout, WsOpen 1] init =
     Inr (init\<lparr>isConnected := True, wsRef := Some 1, sockets := [CLOSED, OPEN],
               users_pending := 1\<rparr>)
   \<and> non_closed (init\<lparr>isConnected := True, wsRef := Some 1, sockets := [CLOSED, OPEN],
               users_pending := 1\<rparr>) = 1
   \<and> live (init\<lparr>isConnected := True, wsRef := Some 1, sockets := [CLOSED, OPEN],
               users_pending := 1\<rparr>) \<le> 1"
proof -
  let ?s = "init\<lparr>isConnected := True, wsRef := Some 1, sockets := [CLOSED, OPEN],
               users_pending := 1\<rparr>"
  have r: "run example_env (Effect # [WsOpen 0, WsError 0, WsClose 0, Timeout, WsOpen 1]) init =
     Inr ?s"
    by (simp add: init_def example_env_def connectWebSocket_def onerror_def
      onopen_def onclose_def)
  have c: "Cleanup \<notin> set [WsOpen 0, WsError 0, WsClose 0, Timeout, WsOpen 1]"
    and e: "Effect \<notin> set [WsOpen 0, WsError 0, WsClose 0, Timeout, WsOpen 1]"
    by simp_all
  from single_connection_without_owner_close[OF r c e]
  have "live ?s \<le> 1" by blast
  moreover have "non_closed ?s = 1" by (simp add: non_closed_def init_def)
  ultimately show ?thesis using r by simp
qed

lemma filter_users_kept:
  assumes "filter_users E data = Inr kept"
  shows "\<forall>u\<in>set kept. is_other_user E u"
  using assms
proof (induction data arbitrary: kept)
  case Nil
  then show ?case by simp
next
  case (Cons user rest)
  from Cons.prems obtain uid kept' where
    u: "get user (str ''user_id'') = Inr uid" and k: "filter_users E rest = Inr kept'"
    and r: "kept = (if \<not> strict_eq uid (Some (JNum (currentUserId E))) then user # kept' else kept')"
    by (auto split: sum.splits)
  from Cons.IH[OF k] have "\<forall>u\<in>set kept'. is_other_user E u" .
  with u r show ?case by (auto simp: is_other_user_def)
qed

lemma fetchUsers_kept:
  assumes "\<forall>u\<in>set prev. is_other_user E u"
  shows "\<forall>u\<in>set (fetchUsers E r prev). is_other_user E u"
proof (cases r)
  case Rejected
  with assms show ?thesis by (simp add: fetchUsers_def)
next
  case (Response ok body)
  show ?thesis
  proof (cases "\<exists>data kept. ok \<and> body = Some (JArr data) \<and> filter_users E data = Inr kept")
    case True
    then obtain data kept where
      d: "ok" "body = Some (JArr data)" "filter_users E data = Inr kept" by blast
    then have "fetchUsers E r prev = kept" using Response by (simp add: fetchUsers_def)
    with filter_users_kept[OF d(3)] show ?thesis by simp
  next
    case False
    then have "fetchUsers E r prev = prev"
      using Response
      by (auto simp: fetchUsers_def split: option.splits json.splits sum.splits)
    with assms show ?thesis by simp
  qed
qed

lemma step_users:
  assumes "step E ev s = Inr s'"
    and "\<forall>u\<in>set (users s). is_other_user E u"
    and "\<forall>u. selectedUser s = Some u \<longrightarrow> is_other_user E u"
  shows "(\<forall>u\<in>set (users s'). is_other_user E u)
       \<and> (\<forall>u. selectedUser s' = Some u \<longrightarrow> is_other_user E u)"
proof (cases ev)
  case (UsersResponse r)
  with assms fetchUsers_kept[OF assms(2), of r] show ?thesis
    by (auto split: if_splits)
next
  case Submit
  show ?thesis
  proof (cases "truthy (selectedUser s) \<and> trim (newMessage s) \<noteq> [] \<and> isConnected s")
    case True
    with assms(1) Submit have "sendMessage E s = Inr s'" by simp
    from sendMessage_frame[OF this] assms(2,3) show ?thesis by simp
  next
    case False
    with assms Submit show ?thesis by auto
  qed
next
  case (WsMessage i data)
  with assms show ?thesis by (auto split: if_splits sum.splits)
qed (use assms in \<open>auto simp: connectWebSocket_def cleanup_def ws_close_def onopen_def
      onclose_def onerror_def split: if_splits option.splits\<close>)

lemma run_users:
  assumes "run E evs s = Inr s'"
    and "\<forall>u\<in>set (users s). is_other_user E u"
    and "\<forall>u. selectedUser s = Some u \<longrightarrow> is_other_user E u"
  shows "(\<forall>u\<in>set (users s'). is_other_user E u)
       \<and> (\<forall>u. selectedUser s' = Some u \<longrightarrow> is_other_user E u)"
  using assms
proof (induction evs arbitrary: s)
  case Nil
  then show ?case by simp
next
  case (Cons ev evs)
  from Cons.prems(1) obtain s1 where
    1: "step E ev s = Inr s1" and 2: "run E evs s1 = Inr s'"
    by (auto split: sum.splits)
  from step_users[OF 1 Cons.prems(2,3)] Cons.IH[OF 2] show ?case by blast
qed

text \<open>
  Claim C10: in every state the chat reaches, every entry of \<open>users\<close> has a \<open>user_id\<close>
  that is not the current user's, and so has the selected user; and so has every entry
  of what another \<open>fetchUsers\<close> response would store.
\<close>

theorem users_exclude_current:
  assumes "run E evs init = Inr s"
  shows "(\<forall>u\<in>set (users s). is_other_user E u)
       \<and> (\<forall>u. selectedUser s = Some u \<longrightarrow> is_other_user E u)
       \<and> (\<forall>u\<in>set (fetchUsers E r (users s)). is_other_user E u)"
proof -
  have "(\<forall>u\<in>set (users s). is_other_user E u)
       \<and> (\<forall>u. selectedUser s = Some u \<longrightarrow> is_other_user E u)"
    using run_users[OF assms] by (simp add: init_def)
  with fetchUsers_kept[of "users s" E r] show ?thesis by blast
qed

text \<open>
  The theorem at a response that lists the current user 1 and user 42: the click on user 1
  finds no row, user 42 is selected.
\<close>

theorem users_exclude_current_witness:
  "run example_env [Effect, UsersResponse (Response True (Some (JArr [user1, user42]))),
                    Select user1, Select user42] init =
     Inr (init\<lparr>users := [user42], selectedUser := Some user42, wsRef := Some 0,
               sockets := [CONNECTING]\<rparr>)
   \<and> is_other_user example_env user42 \<and> \<not> is_other_user example_env user1"
proof -
  let ?evs = "[Effect, UsersResponse (Response True (Some (JArr [user1, user42]))),
               Select user1, Select user42]"
  let ?s = "init\<lparr>users := [user42], selectedUser := Some user42, wsRef := Some 0,
               sockets := [CONNECTING]\<rparr>"
  have r: "run example_env ?evs init = Inr ?s"
    by (simp add: init_def example_env_def connectWebSocket_def fetchUsers_def user1_def
        user42_def str_eq_iff)
  from users_exclude_current[OF r, of Rejected]
  have "is_other_user example_env user42" by simp
  moreover have "\<not> is_other_user example_env user1"
    by (simp add: is_other_user_def user1_def example_env_def str_eq_iff)
  ultimately show ?thesis using r by blast
qed

section \<open>Day groups and profile lookups\<close>






text \<open>
  Claim C7, as the code has it, for \<open>fetchReviewer\<close> and \<open>fetchUserDetails\<close>: a call
  issues no request when the cache value it reads has a truthy entry for the id, and
  otherwise issues one request of its own, whatever is outstanding; an \<open>ok\<close> response with
  a JSON body stores the profile under the id, and every other outcome leaves the cache
  as it was.
\<close>

theorem profile_lookup_per_call:
  "(truthy (reviewers reviewerId) \<longrightarrow> fetchReviewer reviewers reviewerId d = d)
   \<and> (\<not> truthy (reviewers reviewerId) \<longrightarrow>
         fetchReviewer reviewers reviewerId d = d\<lparr>outstanding := outstanding d @ [reviewerId]\<rparr>)
   \<and> cache (fetchReviewer_settled reviewerId (Response True (Some reviewer)) d) =
       (cache d)(reviewerId \<mapsto> reviewer)
   \<and> cache (fetchReviewer_settled reviewerId Rejected d) = cache d
   \<and> cache (fetchReviewer_settled reviewerId (Response False body) d) = cache d
   \<and> cache (fetchReviewer_settled reviewerId (Response True None) d) = cache d
   \<and> (truthy (users' userId) \<longrightarrow> fetchUserDetails users' userId d = d)
   \<and> (\<not> truthy (users' userId) \<longrightarrow>
         fetchUserDetails users' userId d = d\<lparr>outstanding := outstanding d @ [userId]\<rparr>)
   \<and> cache (fetchUserDetails_settled userId (Response True (Some user)) d) =
       (cache d)(userId \<mapsto> user)
   \<and> cache (fetchUserDetails_settled userId Rejected d) = cache d
   \<and> cache (fetchUserDetails_settled userId (Response False body) d) = cache d
   \<and> cache (fetchUserDetails_settled userId (Response True None) d) = cache d"
  by (simp add: fetchReviewer_def fetchReviewer_settled_def fetchUserDetails_def
      fetchUserDetails_settled_def)

text \<open>
  The theorem at id 7, cached and not cached.
\<close>

theorem profile_lookup_per_call_witness:
  "fetchReviewer [7 \<mapsto> user42] 7 example_directory = example_directory
   \<and> fetchReviewer Map.empty 7 example_directory = example_directory\<lparr>outstanding := [7]\<rparr>
   \<and> fetchUserDetails [7 \<mapsto> user42] 7 example_directory = example_directory
   \<and> fetchUserDetails Map.empty 7 example_directory = example_directory\<lparr>outstanding := [7]\<rparr>"
proof -
  have t: "truthy ([7 \<mapsto> user42] (7::rat))" "\<not> truthy (Map.empty (7::rat))"
    by (simp_all add: user42_def)
  from profile_lookup_per_call[where reviewers = "[7 \<mapsto> user42]" and reviewerId = 7
        and d = example_directory and users' = "[7 \<mapsto> user42]" and userId = 7]
    profile_lookup_per_call[where reviewers = Map.empty and reviewerId = 7
        and d = example_directory and users' = Map.empty and userId = 7] t
  show ?thesis by (simp add: example_directory_def)
qed

text \<open>
  Claim C7 as stated fails: no call looks at the outstanding requests. Two calls for id 7
  before the first request settles issue two requests.
\<close>

theorem duplicate_profile_fetch_counterexample:
  "outstanding (fetchReviewer Map.empty 7 (fetchReviewer Map.empty 7 example_directory)) = [7, 7]
   \<and> outstanding (fetchUserDetails Map.empty 7 (fetchUserDetails Map.empty 7 example_directory))
       = [7, 7]"
  by (simp add: fetchReviewer_def fetchUserDetails_def example_directory_def)

end
